theory Spec2Isabelle
  imports Main "HOL-Library.AList" "HOL-Library.Product_Lexorder" "HOL-Library.Multiset"
begin

section \<open>Shared values: errors, instants, the random source\<close>

text \<open>
  Exceptions of the Python source are values. Every \<^verbatim>\<open>raise\<close> and every exception of
  a library call that the source can reach is an \<open>Inl\<close> branch of the function that models it.
\<close>

datatype error =
    ValueError
  | OverflowError
  | IndexError
  | KeyError
  | TypeError
  | AttributeError
  | TimeoutError

text \<open>
  A \<^verbatim>\<open>datetime\<close> is kept as the proleptic Gregorian ordinal of its date (what
  \<^verbatim>\<open>toordinal()\<close> returns, 1 for 0001-01-01) and its time of day. All instants of one
  run are taken in one time zone.
\<close>

record datetime =
  ordinal :: int
  hour :: int
  minute :: int
  second :: int
  microsecond :: int

definition MAXORDINAL :: int where
  "MAXORDINAL = 3652059"

text \<open>The calendar arithmetic of the standard library, used to write dates as year, month, day.\<close>

definition is_leap :: "int \<Rightarrow> bool" where
  "is_leap y = (y mod 4 = 0 \<and> (y mod 100 \<noteq> 0 \<or> y mod 400 = 0))"

definition days_before_year :: "int \<Rightarrow> int" where
  "days_before_year year =
     (let y = year - 1 in y * 365 + y div 4 - y div 100 + y div 400)"

definition days_before_month :: "int \<Rightarrow> nat \<Rightarrow> int" where
  "days_before_month year month =
     ([-1, 0, 31, 59, 90, 120, 151, 181, 212, 243, 273, 304, 334] ! month)
       + (if month > 2 \<and> is_leap year then 1 else 0)"

definition ymd2ord :: "int \<Rightarrow> nat \<Rightarrow> int \<Rightarrow> int" where
  "ymd2ord year month day = days_before_year year + days_before_month year month + day"

definition mk_datetime :: "int \<Rightarrow> nat \<Rightarrow> int \<Rightarrow> int \<Rightarrow> int \<Rightarrow> datetime" where
  "mk_datetime y m d hh mm =
     \<lparr>ordinal = ymd2ord y m d, hour = hh, minute = mm, second = 0, microsecond = 0\<rparr>"

text \<open>\<^verbatim>\<open>date.weekday()\<close>: Monday is 0, Sunday is 6.\<close>

definition weekday :: "datetime \<Rightarrow> int" where
  "weekday d = (ordinal d + 6) mod 7"

text \<open>Comparison of two instants is lexicographic on date and time of day.\<close>

definition dt_key :: "datetime \<Rightarrow> int \<times> int \<times> int \<times> int \<times> int" where
  "dt_key d = (ordinal d, hour d, minute d, second d, microsecond d)"

definition dt_le :: "datetime \<Rightarrow> datetime \<Rightarrow> bool" where
  "dt_le a b = (dt_key a \<le> dt_key b)"

definition dt_less :: "datetime \<Rightarrow> datetime \<Rightarrow> bool" where
  "dt_less a b = (dt_key a < dt_key b)"

text \<open>
  \<^verbatim>\<open>d + timedelta(days=n)\<close> keeps the time of day and raises \<^verbatim>\<open>OverflowError\<close> when the
  date leaves the years 1 to 9999.
\<close>

definition add_days :: "datetime \<Rightarrow> int \<Rightarrow> error + datetime" where
  "add_days d n =
     (if 0 < ordinal d + n \<and> ordinal d + n \<le> MAXORDINAL
      then Inr (d\<lparr>ordinal := ordinal d + n\<rparr>)
      else Inl OverflowError)"

text \<open>
  \<^verbatim>\<open>DateUtils.is_weekend\<close> (on the date parsed from its string argument) and
  \<^verbatim>\<open>DateHandler.is_weekend\<close>.
\<close>

definition is_weekend :: "datetime \<Rightarrow> bool" where
  "is_weekend date_obj = (weekday date_obj \<ge> 5)"

definition handler_is_weekend :: "datetime \<Rightarrow> bool" where
  "handler_is_weekend date = (weekday date \<in> set [5, 6])"

text \<open>
  The module \<^verbatim>\<open>random\<close> keeps one generator for the whole process. It is modelled as a
  fixed stream of raw values \<open>g\<close> and a position in it; each call consumes one raw value
  and returns the next position. \<^verbatim>\<open>randint(a, b)\<close> is \<^verbatim>\<open>a + _randbelow(b - a + 1)\<close> and
  raises \<^verbatim>\<open>ValueError\<close> on an empty range; \<^verbatim>\<open>choice(seq)\<close> is
  \<^verbatim>\<open>seq[_randbelow(len(seq))]\<close> and raises \<^verbatim>\<open>IndexError\<close> on an empty sequence.
\<close>

type_synonym rng = "nat \<Rightarrow> nat"

definition randbelow :: "rng \<Rightarrow> nat \<Rightarrow> nat \<Rightarrow> nat \<times> nat" where
  "randbelow g n p = (g p mod n, Suc p)"

definition randint :: "rng \<Rightarrow> int \<Rightarrow> int \<Rightarrow> nat \<Rightarrow> error + (int \<times> nat)" where
  "randint g a b p =
     (if b < a then Inl ValueError
      else (case randbelow g (nat (b - a + 1)) p of (r, p') \<Rightarrow> Inr (a + int r, p')))"

definition choice :: "rng \<Rightarrow> 'a list \<Rightarrow> nat \<Rightarrow> error + ('a \<times> nat)" where
  "choice g seq p =
     (if seq = [] then Inl IndexError
      else (case randbelow g (length seq) p of (i, p') \<Rightarrow> Inr (seq ! i, p')))"

section \<open>The scheduler: \<^verbatim>\<open>ReactProjectScanner.prepare_commits\<close>\<close>

record FileInfo =
  path :: string
  size :: int
  last_modified :: datetime
  content :: string
  ftype :: string
  category :: string
  complexity :: int

text \<open>The fields of the scanner that \<^verbatim>\<open>prepare_commits\<close> reads.\<close>

record scanner =
  start_date :: datetime
  end_date :: datetime
  commits_per_day :: int
  files :: "FileInfo list"

type_synonym groups = "((string \<times> string) \<times> FileInfo list) list"
type_synonym commit = "datetime \<times> FileInfo list"

text \<open>
  \<^verbatim>\<open>type_groups.setdefault(key, []).append(file)\<close> on a dictionary, which keeps its
  keys in the order of first insertion.
\<close>

fun setdefault_append :: "'k \<Rightarrow> 'v \<Rightarrow> ('k \<times> 'v list) list \<Rightarrow> ('k \<times> 'v list) list" where
  "setdefault_append k v [] = [(k, [v])]"
| "setdefault_append k v ((k', vs) # kvs) =
     (if k = k' then (k', vs @ [v]) # kvs else (k', vs) # setdefault_append k v kvs)"

definition group_by_type :: "FileInfo list \<Rightarrow> groups" where
  "group_by_type fs = foldl (\<lambda>tg file. setdefault_append (ftype file, category file) file tg) [] fs"

text \<open>
  The body of \<^verbatim>\<open>for _ in range(daily_commits)\<close>. Both \<^verbatim>\<open>break\<close>s leave the loop with
  the state unchanged. A commit takes a slice of one group that still has files and a time
  drawn from 09:00 to 18:59 on the current day.
\<close>

fun daily_loop ::
  "rng \<Rightarrow> nat \<Rightarrow> datetime \<Rightarrow> groups \<Rightarrow> commit list \<Rightarrow> nat \<Rightarrow> error + (groups \<times> commit list \<times> nat)"
where
  "daily_loop g 0 current_date type_groups commits p = Inr (type_groups, commits, p)"
| "daily_loop g (Suc n) current_date type_groups commits p =
     (if \<not> list_ex (\<lambda>v. v \<noteq> []) (map snd type_groups) then Inr (type_groups, commits, p)
      else
        let available_groups = filter (\<lambda>(k, v). v \<noteq> []) type_groups in
        if available_groups = [] then Inr (type_groups, commits, p)
        else
          (case choice g available_groups p of
             Inl e \<Rightarrow> Inl e
           | Inr ((group_key, group_files), p1) \<Rightarrow>
             (case randint g 1 (min 5 (int (length group_files))) p1 of
                Inl e \<Rightarrow> Inl e
              | Inr (files_count, p2) \<Rightarrow>
                let commit_files = take (nat files_count) group_files;
                    type_groups' =
                      AList.update group_key (drop (nat files_count) group_files) type_groups
                in
                (case randint g 9 18 p2 of
                   Inl e \<Rightarrow> Inl e
                 | Inr (hh, p3) \<Rightarrow>
                   (case randint g 0 59 p3 of
                      Inl e \<Rightarrow> Inl e
                    | Inr (mm, p4) \<Rightarrow>
                      let commit_time = current_date\<lparr>hour := hh, minute := mm\<rparr> in
                      daily_loop g n current_date type_groups'
                        (commits @ [(commit_time, commit_files)]) p4)))))"

text \<open>
  The loop \<^verbatim>\<open>while current_date <= self.end_date\<close>: one draw of the number of commits of
  the day, the commits of the day, then the next day.
\<close>

function while_loop ::
  "rng \<Rightarrow> int \<Rightarrow> datetime \<Rightarrow> datetime \<Rightarrow> groups \<Rightarrow> commit list \<Rightarrow> nat \<Rightarrow> error + (commit list \<times> nat)"
where
  "while_loop g cpd current_date last_date type_groups commits p =
     (if dt_le current_date last_date then
        (case randint g 1 cpd p of
           Inl e \<Rightarrow> Inl e
         | Inr (daily_commits, p1) \<Rightarrow>
           (case daily_loop g (nat daily_commits) current_date type_groups commits p1 of
              Inl e \<Rightarrow> Inl e
            | Inr (type_groups', commits', p2) \<Rightarrow>
              (case add_days current_date 1 of
                 Inl e \<Rightarrow> Inl e
               | Inr next_date \<Rightarrow>
                 while_loop g cpd next_date last_date type_groups' commits' p2)))
      else Inr (commits, p))"
  by pat_completeness auto
termination
  by (relation "measure (\<lambda>(g, cpd, cur, lst, tg, cs, p). nat (ordinal lst + 1 - ordinal cur))")
     (auto simp: dt_le_def dt_key_def add_days_def split: if_splits)

text \<open>
  \<^verbatim>\<open>prepare_commits\<close>: the list of commits and the position reached in the random
  stream, or the exception raised.
\<close>

definition prepare_commits :: "rng \<Rightarrow> scanner \<Rightarrow> nat \<Rightarrow> error + (commit list \<times> nat)" where
  "prepare_commits g self p =
     (if files self = [] then Inl ValueError
      else while_loop g (commits_per_day self) (start_date self) (end_date self)
             (group_by_type (files self)) [] p)"

declare while_loop.simps [simp del]

section \<open>The aggregator: \<^verbatim>\<open>GitHubScraper\<close> and \<^verbatim>\<open>ContributionAnalyzer\<close>\<close>

text \<open>
  What \<^verbatim>\<open>response.json()\<close> returns. \<open>JNum\<close> holds the integral numbers; an object is
  the list of its members in order, each key once.
\<close>

datatype json =
    JNull
  | JBool bool
  | JNum int
  | JStr string
  | JArr "json list"
  | JObj "(string \<times> json) list"

text \<open>
  The outcome of one \<^verbatim>\<open>session.get\<close> followed by \<^verbatim>\<open>raise_for_status()\<close> and
  \<^verbatim>\<open>json()\<close>: the decoded body, an \<^verbatim>\<open>aiohttp.ClientError\<close> (an error status such as
  404 not found, or a connection failure), or an exception of another class (a timeout, for
  instance).
\<close>

datatype response = Ok json | ClientError | OtherError error

text \<open>
  The remote service: the commits of a repository in a window, and the detail behind the
  value found under \<^verbatim>\<open>"url"\<close> in a listed commit. A world is the service as it
  answers during one call of the analyzer; a later call may meet another world. The
  functions \<open>fetch_commit_details\<close>, \<open>process_commits\<close> and \<open>fetch_contributions\<close> below
  are the bodies of the methods of \<^verbatim>\<open>GitHubScraper\<close>, as they run on an object whose
  session is open; whether the analyzer obtains such an object is the matter of
  \<open>GitHubScraper_new\<close> further down.
\<close>

record world =
  list_commits :: "string \<Rightarrow> string \<Rightarrow> datetime \<Rightarrow> datetime \<Rightarrow> response"
  get_commit :: "json \<Rightarrow> response"

text \<open>\<^verbatim>\<open>d.get(k, default)\<close>; a value that is no dictionary has no \<^verbatim>\<open>get\<close>.\<close>

fun dict_get :: "json \<Rightarrow> string \<Rightarrow> json \<Rightarrow> error + json" where
  "dict_get (JObj kvs) k dflt = (case map_of kvs k of Some v \<Rightarrow> Inr v | None \<Rightarrow> Inr dflt)"
| "dict_get _ k dflt = Inl AttributeError"

text \<open>\<^verbatim>\<open>d[k]\<close> with a string \<open>k\<close>.\<close>

fun getitem :: "json \<Rightarrow> string \<Rightarrow> error + json" where
  "getitem (JObj kvs) k = (case map_of kvs k of Some v \<Rightarrow> Inr v | None \<Rightarrow> Inl KeyError)"
| "getitem _ k = Inl TypeError"

text \<open>
  A value used as a dictionary key: lists and dictionaries are unhashable; \<^verbatim>\<open>True\<close> and
  \<^verbatim>\<open>1\<close> (\<^verbatim>\<open>False\<close> and \<^verbatim>\<open>0\<close>) are the same key, written here as the number.
\<close>

fun dict_key :: "json \<Rightarrow> error + json" where
  "dict_key (JBool b) = Inr (JNum (if b then 1 else 0))"
| "dict_key (JArr xs) = Inl TypeError"
| "dict_key (JObj kvs) = Inl TypeError"
| "dict_key j = Inr j"

text \<open>\<^verbatim>\<open>GitHubScraper._parse_repo_url\<close>.\<close>

definition rstrip_slash :: "string \<Rightarrow> string" where
  "rstrip_slash s = rev (dropWhile (\<lambda>c. c = CHR ''/'') (rev s))"

fun split_on :: "char \<Rightarrow> string \<Rightarrow> string list" where
  "split_on c [] = [[]]"
| "split_on c (x # xs) =
     (if x = c then [] # split_on c xs
      else (case split_on c xs of [] \<Rightarrow> [[x]] | part # parts \<Rightarrow> (x # part) # parts))"

fun remove_dot_git :: "string \<Rightarrow> string" where
  "remove_dot_git (a # b # c # d # rest) =
     (if [a, b, c, d] = ''.git'' then remove_dot_git rest
      else a # remove_dot_git (b # c # d # rest))"
| "remove_dot_git s = s"

definition parse_repo_url :: "string \<Rightarrow> error + (string \<times> string)" where
  "parse_repo_url repo_url =
     (let parts = split_on (CHR ''/'') (rstrip_slash repo_url) in
      if length parts < 2 then Inl IndexError
      else Inr (parts ! (length parts - 2), remove_dot_git (last parts)))"

text \<open>
  \<^verbatim>\<open>GitHubScraper._fetch_commit_details\<close>: a client error is logged and answered with the
  empty dictionary; any other exception leaves the coroutine.
\<close>

definition fetch_commit_details :: "world \<Rightarrow> json \<Rightarrow> error + json" where
  "fetch_commit_details w commit_url =
     (case get_commit w commit_url of
        Ok commit_details \<Rightarrow> Inr commit_details
      | ClientError \<Rightarrow> Inr (JObj [])
      | OtherError e \<Rightarrow> Inl e)"

text \<open>Running a list of steps in order; the first exception ends the run.\<close>

fun sequence :: "(error + 'a) list \<Rightarrow> error + 'a list" where
  "sequence [] = Inr []"
| "sequence (x # xs) =
     (case x of
        Inl e \<Rightarrow> Inl e
      | Inr v \<Rightarrow> (case sequence xs of Inl e \<Rightarrow> Inl e | Inr vs \<Rightarrow> Inr (v # vs)))"

text \<open>
  \<^verbatim>\<open>GitHubScraper._process_commits\<close>: one task per listed commit, built from
  \<^verbatim>\<open>commit["url"]\<close>, all handed to \<^verbatim>\<open>asyncio.gather\<close> at once; the results come back in
  the order of the tasks. Any exception, while the tasks are built or from \<^verbatim>\<open>gather\<close>, is
  logged and answered with the empty list. A body that is no list yields no record either:
  iterating it raises or gives nothing that has a \<^verbatim>\<open>"url"\<close>.
\<close>

definition process_commits :: "world \<Rightarrow> json \<Rightarrow> json list" where
  "process_commits w commits_data =
     (case commits_data of
        JArr cs \<Rightarrow>
          (case sequence (map (\<lambda>commit. getitem commit ''url'') cs) of
             Inl e \<Rightarrow> []
           | Inr urls \<Rightarrow>
             (case sequence (map (fetch_commit_details w) urls) of
                Inl e \<Rightarrow> []
              | Inr enriched_data \<Rightarrow> enriched_data))
      | _ \<Rightarrow> [])"

text \<open>
  \<^verbatim>\<open>GitHubScraper.fetch_contributions\<close>: the URL is parsed outside the \<^verbatim>\<open>try\<close>; a client
  error of the listing request is logged and answered with the empty list.
\<close>

definition fetch_contributions ::
  "world \<Rightarrow> string \<Rightarrow> datetime \<Rightarrow> datetime \<Rightarrow> error + json list" where
  "fetch_contributions w repo_url start_d end_d =
     (case parse_repo_url repo_url of
        Inl e \<Rightarrow> Inl e
      | Inr (owner, name) \<Rightarrow>
        (case list_commits w owner name start_d end_d of
           Ok commits_data \<Rightarrow> Inr (process_commits w commits_data)
         | ClientError \<Rightarrow> Inr []
         | OtherError e \<Rightarrow> Inl e))"

text \<open>
  The dictionary \<^verbatim>\<open>contributions\<close>, in insertion order: a key already present has its
  count incremented in place, a new key is added at the end with count 1.
\<close>

type_synonym contributions = "(json \<times> nat) list"

fun increment :: "json \<Rightarrow> contributions \<Rightarrow> contributions" where
  "increment author [] = [(author, 1)]"
| "increment author ((k, c) # rest) =
     (if k = author then (k, c + 1) # rest else (k, c) # increment author rest)"

text \<open>\<^verbatim>\<open>commit.get("commit", {}).get("author", {}).get("name", "Unknown")\<close>.\<close>

definition author_of :: "json \<Rightarrow> error + json" where
  "author_of commit =
     (case dict_get commit ''commit'' (JObj []) of
        Inl e \<Rightarrow> Inl e
      | Inr c \<Rightarrow>
        (case dict_get c ''author'' (JObj []) of
           Inl e \<Rightarrow> Inl e
         | Inr a \<Rightarrow> dict_get a ''name'' (JStr ''Unknown'')))"

fun count_loop :: "json list \<Rightarrow> contributions \<Rightarrow> error + contributions" where
  "count_loop [] contributions = Inr contributions"
| "count_loop (commit # rest) contributions =
     (case author_of commit of
        Inl e \<Rightarrow> Inl e
      | Inr author \<Rightarrow>
        (case dict_key author of
           Inl e \<Rightarrow> Inl e
         | Inr k \<Rightarrow> count_loop rest (increment k contributions)))"

text \<open>
  The call \<^verbatim>\<open>GitHubScraper()\<close>. \<^verbatim>\<open>ScraperInterface\<close> inherits from \<^verbatim>\<open>ABC\<close> and
  declares \<^verbatim>\<open>scrape_commits\<close> and \<^verbatim>\<open>scrape_contributors\<close> with
  \<^verbatim>\<open>@abstractmethod\<close>; \<^verbatim>\<open>GitHubScraper\<close> inherits from it and defines the eight
  methods listed below. A class with an abstract method that it does not define cannot be
  instantiated: the call raises \<^verbatim>\<open>TypeError\<close> before \<^verbatim>\<open>__init__\<close> runs.
\<close>

definition ScraperInterface_abstract :: "string list" where
  "ScraperInterface_abstract = [''scrape_commits'', ''scrape_contributors'']"

definition GitHubScraper_defined :: "string list" where
  "GitHubScraper_defined =
     [''__init__'', ''__aenter__'', ''__aexit__'', ''fetch_repository_data'',
      ''fetch_contributions'', ''_process_commits'', ''_fetch_commit_details'',
      ''_parse_repo_url'']"

definition instantiate :: "string list \<Rightarrow> string list \<Rightarrow> error + unit" where
  "instantiate abstract defined =
     (if list_all (\<lambda>m. m \<in> set defined) abstract then Inr () else Inl TypeError)"

definition GitHubScraper_new :: "error + unit" where
  "GitHubScraper_new = instantiate ScraperInterface_abstract GitHubScraper_defined"

text \<open>
  \<^verbatim>\<open>ContributionAnalyzer.analyze_contributions\<close>: the scraper is constructed by
  \<^verbatim>\<open>async with GitHubScraper() as scraper\<close>, which then opens the session; its
  \<^verbatim>\<open>fetch_contributions\<close> is awaited and the records are counted. Every exception, that
  of the constructor included, is logged and raised again.
\<close>

definition analyze_contributions ::
  "world \<Rightarrow> string \<Rightarrow> datetime \<Rightarrow> datetime \<Rightarrow> error + contributions" where
  "analyze_contributions w repo_url start_d end_d =
     (case GitHubScraper_new of
        Inl e \<Rightarrow> Inl e
      | Inr scraper \<Rightarrow>
        (case fetch_contributions w repo_url start_d end_d of
           Inl e \<Rightarrow> Inl e
         | Inr commit_data \<Rightarrow> count_loop commit_data []))"

text \<open>
  \<^verbatim>\<open>sorted(items, key=lambda x: x[1], reverse=True)\<close>: descending in the count, and
  items of equal count stay in the order they had.
\<close>

definition sorted_reverse :: "contributions \<Rightarrow> contributions" where
  "sorted_reverse items = sort_key (\<lambda>x. - int (snd x)) items"

text \<open>The slice \<^verbatim>\<open>xs[:n]\<close>; a negative \<open>n\<close> counts from the end.\<close>

definition slice_to :: "'a list \<Rightarrow> int \<Rightarrow> 'a list" where
  "slice_to xs n = (if 0 \<le> n then take (nat n) xs else take (length xs - nat (- n)) xs)"

text \<open>An entry \<^verbatim>\<open>{"name": name, "contributions": count}\<close> of the result.\<close>

record top_entry =
  name :: json
  contributions :: nat

text \<open>
  The last two steps of \<^verbatim>\<open>get_top_contributors\<close>: the items of the counts sorted, and
  the first \<open>top_n\<close> of them as entries.
\<close>

definition top_contributors :: "contributions \<Rightarrow> int \<Rightarrow> top_entry list" where
  "top_contributors contribs top_n =
     map (\<lambda>(n, count). \<lparr>name = n, contributions = count\<rparr>)
       (slice_to (sorted_reverse contribs) top_n)"

text \<open>
  \<^verbatim>\<open>ContributionAnalyzer.get_top_contributors\<close>: it takes no counts; it awaits
  \<^verbatim>\<open>self.analyze_contributions(start_date, end_date)\<close> itself and works on what that call
  returns. Every exception is logged and raised again.
\<close>

definition get_top_contributors ::
  "world \<Rightarrow> string \<Rightarrow> datetime \<Rightarrow> datetime \<Rightarrow> int \<Rightarrow> error + top_entry list" where
  "get_top_contributors w repo_url start_d end_d top_n =
     (case analyze_contributions w repo_url start_d end_d of
        Inl e \<Rightarrow> Inl e
      | Inr contribs \<Rightarrow> Inr (top_contributors contribs top_n))"

section \<open>Date windows: \<^verbatim>\<open>DateHandler.validate_date_range\<close>\<close>

text \<open>The two limits of \<^verbatim>\<open>settings.date\<close> that the function reads.\<close>

record DateConfig =
  max_days_lookback :: int
  max_days_ahead :: int

text \<open>\<open>now\<close> is the reading of the clock, \<^verbatim>\<open>datetime.now(self.timezone)\<close>.\<close>

definition validate_date_range ::
  "DateConfig \<Rightarrow> datetime \<Rightarrow> datetime \<Rightarrow> datetime \<Rightarrow> error + (datetime \<times> datetime)" where
  "validate_date_range date_config now start_d end_d =
     (if dt_less end_d start_d then Inl ValueError
      else
        (case add_days now (- max_days_lookback date_config) of
           Inl e \<Rightarrow> Inl e
         | Inr max_past \<Rightarrow>
           (case add_days now (max_days_ahead date_config) of
              Inl e \<Rightarrow> Inl e
            | Inr max_future \<Rightarrow>
              (let start_d' = (if dt_less start_d max_past then max_past else start_d);
                   end_d' = (if dt_less max_future end_d then max_future else end_d)
               in Inr (start_d', end_d')))))"

section \<open>Properties of timestamps and example inputs\<close>

text \<open>
  A timestamp lies in the working hours of a day: same date, 09:00 to 18:59, seconds and
  microseconds as the day's instant has them.
\<close>

definition in_working_hours :: "datetime \<Rightarrow> datetime \<Rightarrow> bool" where
  "in_working_hours day t =
     (ordinal t = ordinal day \<and> 9 \<le> hour t \<and> hour t \<le> 18 \<and> 0 \<le> minute t \<and> minute t \<le> 59
      \<and> second t = second day \<and> microsecond t = microsecond day)"

text \<open>A timestamp lies on a day of the range and in the working hours.\<close>

definition stamp_ok :: "datetime \<Rightarrow> datetime \<Rightarrow> datetime \<Rightarrow> bool" where
  "stamp_ok first_day last_day t =
     (ordinal first_day \<le> ordinal t \<and> ordinal t \<le> ordinal last_day \<and>
      9 \<le> hour t \<and> hour t \<le> 18 \<and> 0 \<le> minute t \<and> minute t \<le> 59 \<and>
      second t = second first_day \<and> microsecond t = microsecond first_day)"

definition mk_file :: "string \<Rightarrow> string \<Rightarrow> string \<Rightarrow> FileInfo" where
  "mk_file p t c =
     \<lparr>path = p, size = 0, last_modified = mk_datetime 2024 1 1 0 0, content = [],
      ftype = t, category = c, complexity = 0\<rparr>"

text \<open>Three streams of raw values: all 0, all 1, and 0, 1, 2, ...\<close>

definition zero_draws :: rng where
  "zero_draws p = 0"

definition one_draws :: rng where
  "one_draws p = 1"

definition count_draws :: rng where
  "count_draws p = p"

text \<open>A stream that is 0, 1, 2, 3, 4 and then 7 for ever.\<close>

definition short_count_draws :: rng where
  "short_count_draws p = (if p < 5 then p else 7)"

text \<open>Saturday 2024-01-06 to Sunday 2024-01-07, one commit a day, two files.\<close>

definition weekend_scanner :: scanner where
  "weekend_scanner =
     \<lparr>start_date = mk_datetime 2024 1 6 0 0, end_date = mk_datetime 2024 1 7 0 0,
      commits_per_day = 1,
      files = [mk_file ''a.js'' ''Utility'' ''Logic'', mk_file ''b.js'' ''Utility'' ''Logic'']\<rparr>"

text \<open>Monday 2024-01-01 alone, up to two commits a day, three files of one group.\<close>

definition monday_scanner :: scanner where
  "monday_scanner =
     \<lparr>start_date = mk_datetime 2024 1 1 0 0, end_date = mk_datetime 2024 1 1 0 0,
      commits_per_day = 2,
      files = [mk_file ''a.js'' ''Utility'' ''Logic'', mk_file ''b.js'' ''Utility'' ''Logic'',
               mk_file ''c.js'' ''Utility'' ''Logic'']\<rparr>"

text \<open>Monday 2024-01-01 alone, one commit a day, one file.\<close>

definition single_scanner :: scanner where
  "single_scanner =
     \<lparr>start_date = mk_datetime 2024 1 1 0 0, end_date = mk_datetime 2024 1 1 0 0,
      commits_per_day = 1,
      files = [mk_file ''a.js'' ''Utility'' ''Logic'']\<rparr>"

text \<open>\<^verbatim>\<open>sum(contributions.values())\<close>: the counts of all authors added up.\<close>

definition sum_values :: "contributions \<Rightarrow> nat" where
  "sum_values m = sum_list (map snd m)"

text \<open>The count recorded for one author, 0 when the author is absent.\<close>

definition count_of :: "contributions \<Rightarrow> json \<Rightarrow> nat" where
  "count_of m k = (case map_of m k of Some c \<Rightarrow> c | None \<Rightarrow> 0)"

text \<open>The dictionary key under which \<^verbatim>\<open>analyze_contributions\<close> counts a record.\<close>

definition author_key :: "json \<Rightarrow> error + json" where
  "author_key commit = (case author_of commit of Inl e \<Rightarrow> Inl e | Inr author \<Rightarrow> dict_key author)"

text \<open>
  A record without author metadata: a dictionary in which \<^verbatim>\<open>"commit"\<close>, or
  \<^verbatim>\<open>"author"\<close> below it, or \<^verbatim>\<open>"name"\<close> below that, is missing.
\<close>

fun lacks_author_metadata :: "json \<Rightarrow> bool" where
  "lacks_author_metadata (JObj kvs) =
     (case map_of kvs ''commit'' of
        None \<Rightarrow> True
      | Some (JObj c) \<Rightarrow>
          (case map_of c ''author'' of
             None \<Rightarrow> True
           | Some (JObj a) \<Rightarrow> map_of a ''name'' = None
           | Some _ \<Rightarrow> False)
      | Some _ \<Rightarrow> False)"
| "lacks_author_metadata _ = False"

text \<open>
  A detail request that leaves no author: it fails with a client error, or answers with a
  record without author metadata.
\<close>

definition counted_unknown :: "world \<Rightarrow> json \<Rightarrow> bool" where
  "counted_unknown w u =
     (case get_commit w u of
        ClientError \<Rightarrow> True
      | Ok r \<Rightarrow> lacks_author_metadata r
      | OtherError e \<Rightarrow> False)"

text \<open>The distinct elements of a list in the order of their first occurrence.\<close>

fun first_seen :: "'a list \<Rightarrow> 'a list" where
  "first_seen [] = []"
| "first_seen (x # xs) = x # removeAll x (first_seen xs)"

text \<open>Example inputs for the aggregator: records, listed commits, and services given by a
  listing response and a table of detail responses.\<close>

definition commit_by :: "string \<Rightarrow> json" where
  "commit_by a = JObj [(''commit'', JObj [(''author'', JObj [(''name'', JStr a)])])]"

definition commit_ref :: "string \<Rightarrow> json" where
  "commit_ref u = JObj [(''sha'', JStr u), (''url'', JStr u)]"

definition mk_world :: "response \<Rightarrow> (string \<times> response) list \<Rightarrow> world" where
  "mk_world listing table =
     \<lparr>list_commits = (\<lambda>owner name since until. listing),
      get_commit = (\<lambda>u. case u of
                          JStr s \<Rightarrow> (case map_of table s of Some r \<Rightarrow> r | None \<Rightarrow> ClientError)
                        | _ \<Rightarrow> OtherError TypeError)\<rparr>"

definition ex_repo :: string where
  "ex_repo = ''https://github.com/octo/repo.git''"

definition ex_since :: datetime where
  "ex_since = mk_datetime 2024 1 1 0 0"

definition ex_until :: datetime where
  "ex_until = mk_datetime 2024 1 31 0 0"

definition three_world :: world where
  "three_world =
     mk_world (Ok (JArr [commit_ref ''u1'', commit_ref ''u2'', commit_ref ''u3'']))
       [(''u1'', Ok (commit_by ''x'')), (''u2'', Ok (commit_by ''y'')),
        (''u3'', Ok (commit_by ''x''))]"

definition five_world :: world where
  "five_world =
     mk_world
       (Ok (JArr [commit_ref ''u1'', commit_ref ''u2'', commit_ref ''u3'', commit_ref ''u4'',
                  commit_ref ''u5'']))
       [(''u1'', Ok (commit_by ''x'')), (''u2'', Ok (commit_by ''x'')), (''u3'', ClientError),
        (''u4'', Ok (commit_by ''y'')), (''u5'', Ok (commit_by ''y''))]"



definition anonymous_world :: world where
  "anonymous_world =
     mk_world
       (Ok (JArr [commit_ref ''u1'', commit_ref ''u2'', commit_ref ''u3'', commit_ref ''u4'']))
       [(''u1'', Ok (JObj [])),
        (''u2'', Ok (JObj [(''commit'', JObj [(''message'', JStr ''fix'')])])),
        (''u3'', ClientError),
        (''u4'', Ok (commit_by ''x''))]"

text \<open>
  One commit whose record has \<^verbatim>\<open>"commit": null\<close>; one listed commit without
  \<^verbatim>\<open>"url"\<close>; a record with \<^verbatim>\<open>"name": null\<close>; and two commits of which the first
  is not found and the request for the second times out.
\<close>

definition null_commit :: json where
  "null_commit = JObj [(''commit'', JNull)]"

definition null_commit_world :: world where
  "null_commit_world = mk_world (Ok (JArr [commit_ref ''u1''])) [(''u1'', Ok null_commit)]"

definition no_url_world :: world where
  "no_url_world =
     mk_world (Ok (JArr [JObj [(''sha'', JStr ''u1'')]])) [(''u1'', Ok (commit_by ''x''))]"

definition null_name :: json where
  "null_name = JObj [(''commit'', JObj [(''author'', JObj [(''name'', JNull)])])]"

definition late_world :: world where
  "late_world =
     mk_world (Ok (JArr [commit_ref ''u1'', commit_ref ''u2'']))
       [(''u1'', ClientError), (''u2'', OtherError TimeoutError)]"

text \<open>Seven listed commits, by a, b, a, b, a, b, c in one service and by c, b, a, b, a, b, a
  in the other.\<close>

definition seven_refs :: "json list" where
  "seven_refs = map commit_ref [''u1'', ''u2'', ''u3'', ''u4'', ''u5'', ''u6'', ''u7'']"

definition tie_ab_world :: world where
  "tie_ab_world =
     mk_world (Ok (JArr seven_refs))
       [(''u1'', Ok (commit_by ''a'')), (''u2'', Ok (commit_by ''b'')),
        (''u3'', Ok (commit_by ''a'')), (''u4'', Ok (commit_by ''b'')),
        (''u5'', Ok (commit_by ''a'')), (''u6'', Ok (commit_by ''b'')),
        (''u7'', Ok (commit_by ''c''))]"

definition tie_ba_world :: world where
  "tie_ba_world =
     mk_world (Ok (JArr seven_refs))
       [(''u1'', Ok (commit_by ''c'')), (''u2'', Ok (commit_by ''b'')),
        (''u3'', Ok (commit_by ''a'')), (''u4'', Ok (commit_by ''b'')),
        (''u5'', Ok (commit_by ''a'')), (''u6'', Ok (commit_by ''b'')),
        (''u7'', Ok (commit_by ''a''))]"

text \<open>Example limits and clock for the validation of a date range.\<close>

definition ex_date_config :: DateConfig where
  "ex_date_config = \<lparr>max_days_lookback = 365, max_days_ahead = 30\<rparr>"

definition ex_now :: datetime where
  "ex_now = mk_datetime 2024 6 1 12 0"

section \<open>The random source and the loops of the scheduler\<close>

lemma weekday_range: "0 \<le> weekday d \<and> weekday d \<le> 6"
  by (simp add: weekday_def)

lemma is_weekend_agree: "handler_is_weekend d = is_weekend d"
  using weekday_range[of d] by (auto simp: handler_is_weekend_def is_weekend_def)

lemma randint_Inr: "randint g a b p = Inr (v, p') \<Longrightarrow> a \<le> v \<and> v \<le> b \<and> p' = Suc p"
proof -
  assume r: "randint g a b p = Inr (v, p')"
  then have ab: "a \<le> b" by (auto simp: randint_def split: if_splits)
  from r ab have v: "v = a + int (g p mod nat (b - a + 1))" and p': "p' = Suc p"
    by (auto simp: randint_def randbelow_def)
  from ab have "g p mod nat (b - a + 1) < nat (b - a + 1)" by simp
  with ab v p' show ?thesis by linarith
qed

lemma randint_ok: "a \<le> b \<Longrightarrow> \<exists>v. randint g a b p = Inr (v, Suc p)"
  by (auto simp: randint_def randbelow_def)

lemma choice_Inr: "choice g xs p = Inr (x, p') \<Longrightarrow> x \<in> set xs \<and> p' = Suc p"
  by (auto simp: choice_def randbelow_def split: if_splits)

lemma choice_ok: "xs \<noteq> [] \<Longrightarrow> \<exists>x. choice g xs p = Inr (x, Suc p)"
  by (auto simp: choice_def randbelow_def)

lemma randint_cong: "g2 p = g1 p \<Longrightarrow> randint g2 a b p = randint g1 a b p"
  by (simp add: randint_def randbelow_def)

lemma choice_cong: "g2 p = g1 p \<Longrightarrow> choice g2 xs p = choice g1 xs p"
  by (simp add: choice_def randbelow_def)

lemma any_values_iff:
  "list_ex (\<lambda>v. v \<noteq> []) (map snd tg) \<longleftrightarrow> filter (\<lambda>(k, v). v \<noteq> []) tg \<noteq> []"
  by (induction tg) (auto simp: list_ex_iff)

lemma daily_loop_break:
  "filter (\<lambda>(k, v). v \<noteq> []) tg = [] \<Longrightarrow> daily_loop g (Suc n) day tg cs p = Inr (tg, cs, p)"
  by (simp add: any_values_iff Let_def)

lemma daily_loop_step:
  "filter (\<lambda>(k, v). v \<noteq> []) tg \<noteq> [] \<Longrightarrow>
   daily_loop g (Suc n) day tg cs p =
     (case choice g (filter (\<lambda>(k, v). v \<noteq> []) tg) p of
        Inl e \<Rightarrow> Inl e
      | Inr ((gk, gf), p1) \<Rightarrow>
        (case randint g 1 (min 5 (int (length gf))) p1 of
           Inl e \<Rightarrow> Inl e
         | Inr (fc, p2) \<Rightarrow>
           (case randint g 9 18 p2 of
              Inl e \<Rightarrow> Inl e
            | Inr (hh, p3) \<Rightarrow>
              (case randint g 0 59 p3 of
                 Inl e \<Rightarrow> Inl e
               | Inr (mm, p4) \<Rightarrow>
                 daily_loop g n day (AList.update gk (drop (nat fc) gf) tg)
                   (cs @ [(day\<lparr>hour := hh, minute := mm\<rparr>, take (nat fc) gf)]) p4))))"
  by (auto simp: any_values_iff Let_def split: sum.splits prod.splits)

lemma daily_loop_step_ok:
  assumes av: "filter (\<lambda>(k, v). v \<noteq> []) tg \<noteq> []"
  shows "\<exists>gk gf fc hh mm.
           choice g (filter (\<lambda>(k, v). v \<noteq> []) tg) p = Inr ((gk, gf), Suc p) \<and>
           (gk, gf) \<in> set tg \<and> gf \<noteq> [] \<and>
           randint g 1 (min 5 (int (length gf))) (Suc p) = Inr (fc, p + 2) \<and>
           1 \<le> fc \<and> fc \<le> 5 \<and> fc \<le> int (length gf) \<and>
           randint g 9 18 (p + 2) = Inr (hh, p + 3) \<and> 9 \<le> hh \<and> hh \<le> 18 \<and>
           randint g 0 59 (p + 3) = Inr (mm, p + 4) \<and> 0 \<le> mm \<and> mm \<le> 59 \<and>
           daily_loop g (Suc n) day tg cs p =
             daily_loop g n day (AList.update gk (drop (nat fc) gf) tg)
               (cs @ [(day\<lparr>hour := hh, minute := mm\<rparr>, take (nat fc) gf)]) (p + 4)"
proof -
  let ?av = "filter (\<lambda>(k, v). v \<noteq> []) tg"
  from choice_ok[OF av] obtain x where ch: "choice g ?av p = Inr (x, Suc p)" by blast
  obtain gk gf where x: "x = (gk, gf)" by (cases x)
  from choice_Inr[OF ch] x have mem: "(gk, gf) \<in> set tg" and gf: "gf \<noteq> []" by auto
  then have "(1::int) \<le> min 5 (int (length gf))" by (cases gf) auto
  from randint_ok[OF this] obtain fc where
    fc: "randint g 1 (min 5 (int (length gf))) (Suc p) = Inr (fc, Suc (Suc p))" by blast
  obtain hh where hh: "randint g 9 18 (Suc (Suc p)) = Inr (hh, Suc (Suc (Suc p)))"
    using randint_ok[of 9 18] by auto
  obtain mm where mm: "randint g 0 59 (Suc (Suc (Suc p))) = Inr (mm, Suc (Suc (Suc (Suc p))))"
    using randint_ok[of 0 59] by auto
  have e2: "p + 2 = Suc (Suc p)" and e3: "p + 3 = Suc (Suc (Suc p))"
    and e4: "p + 4 = Suc (Suc (Suc (Suc p)))" by simp_all
  from randint_Inr[OF fc] have fcb: "1 \<le> fc" "fc \<le> 5" "fc \<le> int (length gf)" by auto
  from randint_Inr[OF hh] have hb: "9 \<le> hh" "hh \<le> 18" by auto
  from randint_Inr[OF mm] have mb: "0 \<le> mm" "mm \<le> 59" by auto
  have "daily_loop g (Suc n) day tg cs p =
          daily_loop g n day (AList.update gk (drop (nat fc) gf) tg)
            (cs @ [(day\<lparr>hour := hh, minute := mm\<rparr>, take (nat fc) gf)]) (p + 4)"
    unfolding daily_loop_step[OF av] e4 using ch x fc hh mm by simp
  with ch x mem gf fc hh mm fcb hb mb show ?thesis
    unfolding e2 e3 e4 by blast
qed

declare daily_loop.simps(2) [simp del]

lemma daily_loop_Inr:
  "daily_loop g n day tg cs p = Inr (tg', cs', p') \<Longrightarrow>
     \<exists>new. cs' = cs @ new \<and> p \<le> p' \<and> (\<forall>(t, fs) \<in> set new. in_working_hours day t \<and> fs \<noteq> [])"
proof (induction n arbitrary: tg cs p)
  case 0
  then show ?case by simp
next
  case (Suc n)
  show ?case
  proof (cases "filter (\<lambda>(k, v). v \<noteq> []) tg = []")
    case True
    with Suc.prems show ?thesis by (simp add: daily_loop_break)
  next
    case False
    from daily_loop_step_ok[OF False, of g p n day cs] obtain gk gf fc hh mm where
      gf: "gf \<noteq> []" and fcb: "1 \<le> fc" and hb: "9 \<le> hh" "hh \<le> 18" and mb: "0 \<le> mm" "mm \<le> 59"
      and step: "daily_loop g (Suc n) day tg cs p =
             daily_loop g n day (AList.update gk (drop (nat fc) gf) tg)
               (cs @ [(day\<lparr>hour := hh, minute := mm\<rparr>, take (nat fc) gf)]) (p + 4)"
      by blast
    from Suc.prems step have rec: "daily_loop g n day (AList.update gk (drop (nat fc) gf) tg)
               (cs @ [(day\<lparr>hour := hh, minute := mm\<rparr>, take (nat fc) gf)]) (p + 4) = Inr (tg', cs', p')"
      by simp
    from Suc.IH[OF rec] obtain new where
      new: "cs' = (cs @ [(day\<lparr>hour := hh, minute := mm\<rparr>, take (nat fc) gf)]) @ new"
        "p + 4 \<le> p'" "\<forall>(t, fs) \<in> set new. in_working_hours day t \<and> fs \<noteq> []"
      by blast
    have first: "in_working_hours day (day\<lparr>hour := hh, minute := mm\<rparr>) \<and> take (nat fc) gf \<noteq> []"
      using hb mb gf fcb by (auto simp: in_working_hours_def)
    show ?thesis
      apply (rule exI[of _ "(day\<lparr>hour := hh, minute := mm\<rparr>, take (nat fc) gf) # new"])
      using new first by auto
  qed
qed

lemma daily_loop_total: "\<exists>r. daily_loop g n day tg cs p = Inr r"
proof (induction n arbitrary: tg cs p)
  case 0
  then show ?case by simp
next
  case (Suc n)
  show ?case
  proof (cases "filter (\<lambda>(k, v). v \<noteq> []) tg = []")
    case True
    then show ?thesis by (simp add: daily_loop_break)
  next
    case False
    from daily_loop_step_ok[OF False, of g p n day cs] Suc.IH show ?thesis by metis
  qed
qed

lemma daily_loop_first:
  assumes "filter (\<lambda>(k, v). v \<noteq> []) tg \<noteq> []" "0 < n"
    and "daily_loop g n day tg cs p = Inr (tg', cs', p')"
  shows "\<exists>c new. cs' = cs @ c # new"
proof -
  from assms(2) obtain m where n: "n = Suc m" by (cases n) auto
  from daily_loop_step_ok[OF assms(1), of g p m day cs] obtain gk gf fc hh mm where
    step: "daily_loop g (Suc m) day tg cs p =
             daily_loop g m day (AList.update gk (drop (nat fc) gf) tg)
               (cs @ [(day\<lparr>hour := hh, minute := mm\<rparr>, take (nat fc) gf)]) (p + 4)"
    by blast
  with assms(3) n have "daily_loop g m day (AList.update gk (drop (nat fc) gf) tg)
               (cs @ [(day\<lparr>hour := hh, minute := mm\<rparr>, take (nat fc) gf)]) (p + 4) = Inr (tg', cs', p')"
    by simp
  from daily_loop_Inr[OF this] show ?thesis by auto
qed

lemma daily_loop_agree:
  "daily_loop g1 n day tg cs p = Inr (tg', cs', p') \<Longrightarrow> (\<forall>i. p \<le> i \<and> i < p' \<longrightarrow> g2 i = g1 i) \<Longrightarrow>
   daily_loop g2 n day tg cs p = Inr (tg', cs', p')"
proof (induction n arbitrary: tg cs p)
  case 0
  then show ?case by simp
next
  case (Suc n)
  show ?case
  proof (cases "filter (\<lambda>(k, v). v \<noteq> []) tg = []")
    case True
    with Suc.prems show ?thesis by (simp add: daily_loop_break)
  next
    case False
    from daily_loop_step_ok[OF False, of g1 p n day cs] obtain gk gf fc hh mm where
      ch: "choice g1 (filter (\<lambda>(k, v). v \<noteq> []) tg) p = Inr ((gk, gf), Suc p)"
      and fc: "randint g1 1 (min 5 (int (length gf))) (Suc p) = Inr (fc, p + 2)"
      and hh: "randint g1 9 18 (p + 2) = Inr (hh, p + 3)"
      and mm: "randint g1 0 59 (p + 3) = Inr (mm, p + 4)"
      and step: "daily_loop g1 (Suc n) day tg cs p =
             daily_loop g1 n day (AList.update gk (drop (nat fc) gf) tg)
               (cs @ [(day\<lparr>hour := hh, minute := mm\<rparr>, take (nat fc) gf)]) (p + 4)"
      by blast
    from Suc.prems(1) step have rec: "daily_loop g1 n day (AList.update gk (drop (nat fc) gf) tg)
               (cs @ [(day\<lparr>hour := hh, minute := mm\<rparr>, take (nat fc) gf)]) (p + 4) = Inr (tg', cs', p')"
      by simp
    from daily_loop_Inr[OF rec] have le: "p + 4 \<le> p'" by blast
    with Suc.prems(2) have ag: "g2 p = g1 p" "g2 (Suc p) = g1 (Suc p)" "g2 (p + 2) = g1 (p + 2)"
      "g2 (p + 3) = g1 (p + 3)" and rest: "\<forall>i. p + 4 \<le> i \<and> i < p' \<longrightarrow> g2 i = g1 i"
      by auto
    from Suc.IH[OF rec rest] have rec2: "daily_loop g2 n day (AList.update gk (drop (nat fc) gf) tg)
               (cs @ [(day\<lparr>hour := hh, minute := mm\<rparr>, take (nat fc) gf)]) (p + 4) = Inr (tg', cs', p')" .
    have ch2: "choice g2 (filter (\<lambda>(k, v). v \<noteq> []) tg) p = Inr ((gk, gf), Suc p)"
      using ch choice_cong[of g2 p g1 "filter (\<lambda>(k, v). v \<noteq> []) tg", OF ag(1)] by simp
    have fc2: "randint g2 1 (min 5 (int (length gf))) (Suc p) = Inr (fc, p + 2)"
      using fc randint_cong[of g2 "Suc p" g1 1 "min 5 (int (length gf))", OF ag(2)] by simp
    have hh2: "randint g2 9 18 (p + 2) = Inr (hh, p + 3)"
      using hh randint_cong[of g2 "p + 2" g1 9 18, OF ag(3)] by simp
    have mm2: "randint g2 0 59 (p + 3) = Inr (mm, p + 4)"
      using mm randint_cong[of g2 "p + 3" g1 0 59, OF ag(4)] by simp
    show ?thesis
      unfolding daily_loop_step[OF False] using ch2 fc2 hh2 mm2 rec2 by simp
  qed
qed

lemma dt_le_ordinal: "dt_le a b \<Longrightarrow> ordinal a \<le> ordinal b"
  by (auto simp: dt_le_def dt_key_def)

lemma add_days_Inr:
  "add_days d n = Inr d' \<Longrightarrow> d' = d\<lparr>ordinal := ordinal d + n\<rparr>"
  by (auto simp: add_days_def split: if_splits)

lemma while_loop_stop:
  "\<not> dt_le cur lst \<Longrightarrow> while_loop g cpd cur lst tg cs p = Inr (cs, p)"
  by (simp add: while_loop.simps)

lemma while_loop_Inr_step:
  assumes "while_loop g cpd cur lst tg cs p = Inr (cs', p')" and "dt_le cur lst"
  shows "\<exists>dc tg1 cs1 p2 nxt.
           randint g 1 cpd p = Inr (dc, Suc p) \<and> 1 \<le> dc \<and> dc \<le> cpd \<and>
           daily_loop g (nat dc) cur tg cs (Suc p) = Inr (tg1, cs1, p2) \<and>
           add_days cur 1 = Inr nxt \<and>
           while_loop g cpd nxt lst tg1 cs1 p2 = Inr (cs', p')"
proof -
  from assms obtain dc p1 where r: "randint g 1 cpd p = Inr (dc, p1)"
    by (subst (asm) while_loop.simps) (auto split: sum.splits)
  from randint_Inr[OF r] have b: "1 \<le> dc" "dc \<le> cpd" "p1 = Suc p" by auto
  from assms r obtain tg1 cs1 p2 where d: "daily_loop g (nat dc) cur tg cs p1 = Inr (tg1, cs1, p2)"
    by (subst (asm) while_loop.simps) (auto split: sum.splits)
  from assms r d obtain nxt where a: "add_days cur 1 = Inr nxt"
    by (subst (asm) while_loop.simps) (auto split: sum.splits)
  from assms r d a have "while_loop g cpd nxt lst tg1 cs1 p2 = Inr (cs', p')"
    by (subst (asm) while_loop.simps) auto
  with r b d a show ?thesis by blast
qed

lemma while_loop_Inr:
  "while_loop g cpd cur lst tg cs p = Inr (cs', p') \<Longrightarrow>
     \<exists>new. cs' = cs @ new \<and> p \<le> p' \<and>
       (\<forall>(t, fs) \<in> set new. stamp_ok cur lst t \<and> fs \<noteq> []) \<and>
       sorted (map (\<lambda>c. ordinal (fst c)) new)"
proof (induction g cpd cur lst tg cs p rule: while_loop.induct)
  case (1 g cpd cur lst tg cs p)
  show ?case
  proof (cases "dt_le cur lst")
    case False
    with "1.prems" show ?thesis by (simp add: while_loop_stop)
  next
    case True
    from while_loop_Inr_step[OF "1.prems" True] obtain dc tg1 cs1 p2 nxt where
      r: "randint g 1 cpd p = Inr (dc, Suc p)"
      and d: "daily_loop g (nat dc) cur tg cs (Suc p) = Inr (tg1, cs1, p2)"
      and a: "add_days cur 1 = Inr nxt"
      and w: "while_loop g cpd nxt lst tg1 cs1 p2 = Inr (cs', p')"
      by blast
    from daily_loop_Inr[OF d] obtain new1 where
      n1: "cs1 = cs @ new1" "Suc p \<le> p2" "\<forall>(t, fs) \<in> set new1. in_working_hours cur t \<and> fs \<noteq> []"
      by blast
    have "\<exists>new. cs' = cs1 @ new \<and> p2 \<le> p' \<and>
       (\<forall>(t, fs) \<in> set new. stamp_ok nxt lst t \<and> fs \<noteq> []) \<and>
       sorted (map (\<lambda>c. ordinal (fst c)) new)"
      by (rule "1.IH"[OF True r refl d refl refl a w])
    then obtain new2 where
      n2: "cs' = cs1 @ new2" "p2 \<le> p'" "\<forall>(t, fs) \<in> set new2. stamp_ok nxt lst t \<and> fs \<noteq> []"
        "sorted (map (\<lambda>c. ordinal (fst c)) new2)"
      by blast
    from add_days_Inr[OF a] have nx: "nxt = cur\<lparr>ordinal := ordinal cur + 1\<rparr>" .
    from True have ol: "ordinal cur \<le> ordinal lst" by (rule dt_le_ordinal)
    have s1: "\<forall>(t, fs) \<in> set new1. stamp_ok cur lst t \<and> fs \<noteq> [] \<and> ordinal t = ordinal cur"
      using n1(3) ol by (auto simp: in_working_hours_def stamp_ok_def)
    have s2: "\<forall>(t, fs) \<in> set new2. stamp_ok cur lst t \<and> fs \<noteq> [] \<and> ordinal cur < ordinal t"
      using n2(3) nx by (auto simp: stamp_ok_def)
    have srt1: "sorted (map (\<lambda>c. ordinal (fst c)) new1)"
    proof -
      have "map (\<lambda>c. ordinal (fst c)) new1 = replicate (length new1) (ordinal cur)"
        using s1 by (intro replicate_eqI) auto
      then show ?thesis by (simp add: sorted_replicate)
    qed
    have srt: "sorted (map (\<lambda>c. ordinal (fst c)) (new1 @ new2))"
      using srt1 n2(4) s1 s2 by (fastforce simp: sorted_append)
    show ?thesis
      apply (rule exI[of _ "new1 @ new2"])
      using n1 n2 s1 s2 srt by auto
  qed
qed

lemma while_loop_agree:
  "while_loop g1 cpd cur lst tg cs p = Inr (cs', p') \<Longrightarrow> (\<forall>i. p \<le> i \<and> i < p' \<longrightarrow> g2 i = g1 i) \<Longrightarrow>
   while_loop g2 cpd cur lst tg cs p = Inr (cs', p')"
proof (induction g1 cpd cur lst tg cs p rule: while_loop.induct)
  case (1 g1 cpd cur lst tg cs p)
  show ?case
  proof (cases "dt_le cur lst")
    case False
    with "1.prems" show ?thesis by (simp add: while_loop_stop)
  next
    case True
    from while_loop_Inr_step[OF "1.prems"(1) True] obtain dc tg1 cs1 p2 nxt where
      r: "randint g1 1 cpd p = Inr (dc, Suc p)"
      and d: "daily_loop g1 (nat dc) cur tg cs (Suc p) = Inr (tg1, cs1, p2)"
      and a: "add_days cur 1 = Inr nxt"
      and w: "while_loop g1 cpd nxt lst tg1 cs1 p2 = Inr (cs', p')"
      by blast
    from daily_loop_Inr[OF d] have l1: "Suc p \<le> p2" by blast
    from while_loop_Inr[OF w] have l2: "p2 \<le> p'" by blast
    from l1 l2 "1.prems"(2) have ag0: "g2 p = g1 p"
      and ag1: "\<forall>i. Suc p \<le> i \<and> i < p2 \<longrightarrow> g2 i = g1 i"
      and ag2: "\<forall>i. p2 \<le> i \<and> i < p' \<longrightarrow> g2 i = g1 i"
      by auto
    have r2: "randint g2 1 cpd p = Inr (dc, Suc p)"
      using r randint_cong[of g2 p g1 1 cpd, OF ag0] by simp
    have d2: "daily_loop g2 (nat dc) cur tg cs (Suc p) = Inr (tg1, cs1, p2)"
      by (rule daily_loop_agree[OF d ag1])
    have w2: "while_loop g2 cpd nxt lst tg1 cs1 p2 = Inr (cs', p')"
      by (rule "1.IH"[OF True r refl d refl refl a w ag2])
    show ?thesis
      by (subst while_loop.simps) (simp add: True r2 d2 a w2)
  qed
qed

lemma while_loop_total:
  "1 \<le> cpd \<Longrightarrow> 0 \<le> ordinal cur \<Longrightarrow> ordinal lst < MAXORDINAL \<Longrightarrow>
   \<exists>r. while_loop g cpd cur lst tg cs p = Inr r"
proof (induction g cpd cur lst tg cs p rule: while_loop.induct)
  case (1 g cpd cur lst tg cs p)
  show ?case
  proof (cases "dt_le cur lst")
    case False
    then show ?thesis by (simp add: while_loop_stop)
  next
    case True
    from randint_ok[OF "1.prems"(1)] obtain dc where r: "randint g 1 cpd p = Inr (dc, Suc p)"
      by blast
    from daily_loop_total obtain x where d0: "daily_loop g (nat dc) cur tg cs (Suc p) = Inr x"
      by blast
    obtain tg1 cs1 p2 where x: "x = (tg1, cs1, p2)" by (cases x)
    from d0 x have d: "daily_loop g (nat dc) cur tg cs (Suc p) = Inr (tg1, cs1, p2)" by simp
    from dt_le_ordinal[OF True] "1.prems" have
      a: "add_days cur 1 = Inr (cur\<lparr>ordinal := ordinal cur + 1\<rparr>)"
      by (simp add: add_days_def)
    have "\<exists>r. while_loop g cpd (cur\<lparr>ordinal := ordinal cur + 1\<rparr>) lst tg1 cs1 p2 = Inr r"
      using "1.prems" by (intro "1.IH"[OF True r refl d refl refl a]) auto
    then show ?thesis
      by (subst while_loop.simps) (simp add: True r d a)
  qed
qed

lemma while_loop_first:
  assumes w: "while_loop g cpd cur lst tg cs p = Inr (cs', p')"
    and le: "dt_le cur lst" and ne: "filter (\<lambda>(k, v). v \<noteq> []) tg \<noteq> []"
  shows "\<exists>t fs new. cs' = cs @ (t, fs) # new \<and> in_working_hours cur t"
proof -
  from while_loop_Inr_step[OF w le] obtain dc tg1 cs1 p2 nxt where
    b: "1 \<le> dc"
    and d: "daily_loop g (nat dc) cur tg cs (Suc p) = Inr (tg1, cs1, p2)"
    and w2: "while_loop g cpd nxt lst tg1 cs1 p2 = Inr (cs', p')"
    by blast
  from b have "0 < nat dc" by simp
  from daily_loop_first[OF ne this d] obtain c new1 where c: "cs1 = cs @ c # new1" by blast
  from daily_loop_Inr[OF d] c have "in_working_hours cur (fst c)" by auto
  moreover from while_loop_Inr[OF w2] obtain new2 where "cs' = cs1 @ new2" by blast
  ultimately show ?thesis using c by (cases c) auto
qed

lemma setdefault_append_has_files:
  "\<exists>kv \<in> set (setdefault_append k x tg). snd kv \<noteq> []"
proof (induction tg)
  case Nil
  show ?case by simp
next
  case (Cons a tg)
  obtain k' vs where a: "a = (k', vs)" by (cases a)
  show ?case
  proof (cases "k = k'")
    case True
    with a show ?thesis by simp
  next
    case False
    with a Cons.IH show ?thesis by auto
  qed
qed

lemma setdefault_append_nonempty:
  "filter (\<lambda>(k, v). v \<noteq> []) (setdefault_append k x tg) \<noteq> []"
proof -
  from setdefault_append_has_files[of k x tg] obtain kv where
    "kv \<in> set (setdefault_append k x tg)" "snd kv \<noteq> []" by blast
  then have "kv \<in> set (filter (\<lambda>(k, v). v \<noteq> []) (setdefault_append k x tg))"
    by (cases kv) auto
  then show ?thesis by (metis empty_iff empty_set)
qed

lemma group_by_type_nonempty:
  "fs \<noteq> [] \<Longrightarrow> filter (\<lambda>(k, v). v \<noteq> []) (group_by_type fs) \<noteq> []"
proof (induction fs rule: rev_induct)
  case Nil
  then show ?case by simp
next
  case (snoc x xs)
  show ?case by (simp add: group_by_type_def setdefault_append_nonempty)
qed

section \<open>Claims about the scheduler\<close>

text \<open>Four runs of \<^verbatim>\<open>prepare_commits\<close>, evaluated.\<close>

lemma weekend_run:
  "prepare_commits zero_draws weekend_scanner 0 =
     Inr ([(mk_datetime 2024 1 6 9 0, [mk_file ''a.js'' ''Utility'' ''Logic'']),
           (mk_datetime 2024 1 7 9 0, [mk_file ''b.js'' ''Utility'' ''Logic''])], 10)"
  by code_simp

lemma monday_run:
  "prepare_commits one_draws monday_scanner 0 =
     Inr ([(mk_datetime 2024 1 1 10 1,
             [mk_file ''a.js'' ''Utility'' ''Logic'', mk_file ''b.js'' ''Utility'' ''Logic'']),
           (mk_datetime 2024 1 1 10 1, [mk_file ''c.js'' ''Utility'' ''Logic''])], 9)"
  by code_simp

lemma single_run_first:
  "prepare_commits count_draws single_scanner 0 =
     Inr ([(mk_datetime 2024 1 1 12 4, [mk_file ''a.js'' ''Utility'' ''Logic''])], 5)"
  by code_simp

lemma single_run_second:
  "prepare_commits count_draws single_scanner 5 =
     Inr ([(mk_datetime 2024 1 1 17 9, [mk_file ''a.js'' ''Utility'' ''Logic''])], 10)"
  by code_simp

text \<open>
  C1, as stated, fails. \<^verbatim>\<open>prepare_commits\<close> has no weekend setting and never calls
  \<^verbatim>\<open>is_weekend\<close>: over Saturday 2024-01-06 and Sunday 2024-01-07 it emits one commit on
  each of the two days.
\<close>

theorem prepare_commits_weekend_counterexample:
  "prepare_commits zero_draws weekend_scanner 0 =
     Inr ([(mk_datetime 2024 1 6 9 0, [mk_file ''a.js'' ''Utility'' ''Logic'']),
           (mk_datetime 2024 1 7 9 0, [mk_file ''b.js'' ''Utility'' ''Logic''])], 10)
   \<and> is_weekend (mk_datetime 2024 1 6 9 0) \<and> weekday (mk_datetime 2024 1 6 9 0) = 5
   \<and> is_weekend (mk_datetime 2024 1 7 9 0) \<and> weekday (mk_datetime 2024 1 7 9 0) = 6"
  using weekend_run by (simp add: is_weekend_def weekday_def mk_datetime_def ymd2ord_def
      days_before_year_def days_before_month_def is_leap_def)

text \<open>
  C1, amended. \<^verbatim>\<open>prepare_commits\<close> treats every day of the range alike: with files to
  commit, at least one commit a day allowed, a start not after the end and dates that stay
  below the last day of year 9999, it returns a non-empty schedule whose first commit is dated on
  the start day, a weekend day exactly when the start day is one, and every commit is dated
  on a day from the start day to the end day.
\<close>

theorem prepare_commits_every_day:
  assumes "files self \<noteq> []" and "1 \<le> commits_per_day self"
    and "dt_le (start_date self) (end_date self)"
    and "0 \<le> ordinal (start_date self)" and "ordinal (end_date self) < MAXORDINAL"
  shows "\<exists>t fs rest p'.
           prepare_commits g self p = Inr ((t, fs) # rest, p') \<and>
           ordinal t = ordinal (start_date self) \<and>
           is_weekend t = is_weekend (start_date self) \<and>
           (\<forall>(t', fs') \<in> set ((t, fs) # rest).
              ordinal (start_date self) \<le> ordinal t' \<and> ordinal t' \<le> ordinal (end_date self))"
proof -
  let ?tg = "group_by_type (files self)"
  have pc: "prepare_commits g self p =
      while_loop g (commits_per_day self) (start_date self) (end_date self) ?tg [] p"
    using assms(1) by (simp add: prepare_commits_def)
  from while_loop_total[OF assms(2,4,5)] obtain r where
    r: "while_loop g (commits_per_day self) (start_date self) (end_date self) ?tg [] p = Inr r"
    by blast
  obtain cs p' where rr: "r = (cs, p')" by (cases r)
  from r rr have w: "while_loop g (commits_per_day self) (start_date self) (end_date self) ?tg [] p
      = Inr (cs, p')" by simp
  from while_loop_first[OF w assms(3) group_by_type_nonempty[OF assms(1)]] obtain t fs rest where
    cs: "cs = (t, fs) # rest" and wh: "in_working_hours (start_date self) t" by auto
  from while_loop_Inr[OF w] have
    all: "\<forall>(t', fs') \<in> set cs. stamp_ok (start_date self) (end_date self) t' \<and> fs' \<noteq> []"
    by auto
  from wh have o: "ordinal t = ordinal (start_date self)" by (simp add: in_working_hours_def)
  then have we: "is_weekend t = is_weekend (start_date self)"
    by (simp add: is_weekend_def weekday_def)
  have rng: "\<forall>(t', fs') \<in> set ((t, fs) # rest).
              ordinal (start_date self) \<le> ordinal t' \<and> ordinal t' \<le> ordinal (end_date self)"
    using all cs by (auto simp: stamp_ok_def)
  have "prepare_commits g self p = Inr ((t, fs) # rest, p')" using pc w cs by simp
  with o we rng show ?thesis by (intro exI conjI)
qed

text \<open>C1, the amended statement at the weekend of 2024-01-06.\<close>

theorem prepare_commits_every_day_witness:
  "prepare_commits zero_draws weekend_scanner 0 =
     Inr ([(mk_datetime 2024 1 6 9 0, [mk_file ''a.js'' ''Utility'' ''Logic'']),
           (mk_datetime 2024 1 7 9 0, [mk_file ''b.js'' ''Utility'' ''Logic''])], 10)
   \<and> ordinal (mk_datetime 2024 1 6 9 0) = ordinal (start_date weekend_scanner)
   \<and> is_weekend (mk_datetime 2024 1 6 9 0) = is_weekend (start_date weekend_scanner)
   \<and> is_weekend (start_date weekend_scanner)"
proof -
  have f: "files weekend_scanner \<noteq> []" by (simp add: weekend_scanner_def)
  have c: "1 \<le> commits_per_day weekend_scanner" by (simp add: weekend_scanner_def)
  have le: "dt_le (start_date weekend_scanner) (end_date weekend_scanner)"
    by (simp add: weekend_scanner_def dt_le_def dt_key_def mk_datetime_def ymd2ord_def
        days_before_year_def days_before_month_def is_leap_def)
  have lo: "0 \<le> ordinal (start_date weekend_scanner)"
    by (simp add: weekend_scanner_def mk_datetime_def ymd2ord_def
        days_before_year_def days_before_month_def is_leap_def)
  have hi: "ordinal (end_date weekend_scanner) < MAXORDINAL"
    by (simp add: weekend_scanner_def mk_datetime_def ymd2ord_def MAXORDINAL_def
        days_before_year_def days_before_month_def is_leap_def)
  from prepare_commits_every_day[OF f c le lo hi, of zero_draws 0] obtain t fs rest p' where
    run: "prepare_commits zero_draws weekend_scanner 0 = Inr ((t, fs) # rest, p')"
    and day: "ordinal t = ordinal (start_date weekend_scanner)"
    and we: "is_weekend t = is_weekend (start_date weekend_scanner)"
    by blast
  from run weekend_run have t: "t = mk_datetime 2024 1 6 9 0" by simp
  have sat: "is_weekend (start_date weekend_scanner)"
    by (simp add: weekend_scanner_def is_weekend_def weekday_def mk_datetime_def ymd2ord_def
        days_before_year_def days_before_month_def is_leap_def)
  from weekend_run day we sat show ?thesis unfolding t by simp
qed

text \<open>
  C4, as stated, fails. The hour and the minute of each commit are drawn independently and
  nothing compares them with the earlier commits of the day: on Monday 2024-01-01 two commits
  both get 10:01.
\<close>

theorem prepare_commits_same_minute_counterexample:
  "prepare_commits one_draws monday_scanner 0 =
     Inr ([(mk_datetime 2024 1 1 10 1,
             [mk_file ''a.js'' ''Utility'' ''Logic'', mk_file ''b.js'' ''Utility'' ''Logic'']),
           (mk_datetime 2024 1 1 10 1, [mk_file ''c.js'' ''Utility'' ''Logic''])], 9)
   \<and> \<not> dt_less (mk_datetime 2024 1 1 10 1) (mk_datetime 2024 1 1 10 1)"
  using monday_run by (simp add: dt_less_def)

text \<open>
  C4, amended. Every timestamp of a schedule lies on a day of the range, at an hour from 9 to
  18 and a minute from 0 to 59, with the seconds and microseconds of the start instant, and
  the commits come in non-decreasing order of their dates. Within one day the times are not
  ordered.
\<close>

theorem prepare_commits_working_hours:
  assumes "prepare_commits g self p = Inr (cs, p')"
  shows "(\<forall>(t, fs) \<in> set cs. stamp_ok (start_date self) (end_date self) t)
         \<and> sorted (map (\<lambda>c. ordinal (fst c)) cs)"
proof -
  from assms have "while_loop g (commits_per_day self) (start_date self) (end_date self)
      (group_by_type (files self)) [] p = Inr (cs, p')"
    by (simp add: prepare_commits_def split: if_splits)
  from while_loop_Inr[OF this] show ?thesis by auto
qed

text \<open>C4, the amended statement at the schedule of Monday 2024-01-01.\<close>

theorem prepare_commits_working_hours_witness:
  "stamp_ok (start_date monday_scanner) (end_date monday_scanner) (mk_datetime 2024 1 1 10 1)
   \<and> sorted (map (\<lambda>c. ordinal (fst c))
        [(mk_datetime 2024 1 1 10 1,
           [mk_file ''a.js'' ''Utility'' ''Logic'', mk_file ''b.js'' ''Utility'' ''Logic'']),
         (mk_datetime 2024 1 1 10 1, [mk_file ''c.js'' ''Utility'' ''Logic''])])"
  using prepare_commits_working_hours[OF monday_run] by simp

text \<open>
  C5, as stated, fails. \<^verbatim>\<open>prepare_commits\<close> takes no seed and draws from the generator of
  the process where the previous call left it: two calls in a row over the same scanner give
  12:04 and then 17:09.
\<close>

theorem prepare_commits_reseed_counterexample:
  "prepare_commits count_draws single_scanner 0 =
     Inr ([(mk_datetime 2024 1 1 12 4, [mk_file ''a.js'' ''Utility'' ''Logic''])], 5)
   \<and> prepare_commits count_draws single_scanner 5 =
     Inr ([(mk_datetime 2024 1 1 17 9, [mk_file ''a.js'' ''Utility'' ''Logic''])], 10)
   \<and> mk_datetime 2024 1 1 12 4 \<noteq> mk_datetime 2024 1 1 17 9"
  using single_run_first single_run_second by (simp add: mk_datetime_def)

text \<open>
  C5, amended. The schedule depends on the random source only through the raw values the
  call consumes: a second source that delivers the same values at the positions consumed
  gives the same commits and ends at the same position.
\<close>

theorem prepare_commits_same_draws:
  assumes "prepare_commits g1 self p = Inr (cs, p')"
    and "\<forall>i. p \<le> i \<and> i < p' \<longrightarrow> g2 i = g1 i"
  shows "prepare_commits g2 self p = Inr (cs, p')"
proof -
  from assms(1) have ne: "files self \<noteq> []"
    and w: "while_loop g1 (commits_per_day self) (start_date self) (end_date self)
      (group_by_type (files self)) [] p = Inr (cs, p')"
    by (auto simp: prepare_commits_def split: if_splits)
  from while_loop_agree[OF w assms(2)] ne show ?thesis
    by (simp add: prepare_commits_def)
qed

text \<open>
  C5, the amended statement for two sources that agree on the five values consumed and differ
  afterwards.
\<close>

theorem prepare_commits_same_draws_witness:
  "prepare_commits short_count_draws single_scanner 0 =
     Inr ([(mk_datetime 2024 1 1 12 4, [mk_file ''a.js'' ''Utility'' ''Logic''])], 5)
   \<and> short_count_draws 5 \<noteq> count_draws 5"
proof -
  have "\<forall>i. 0 \<le> i \<and> i < 5 \<longrightarrow> short_count_draws i = count_draws i"
    by (simp add: short_count_draws_def count_draws_def)
  then have "prepare_commits short_count_draws single_scanner 0 =
     Inr ([(mk_datetime 2024 1 1 12 4, [mk_file ''a.js'' ''Utility'' ''Logic''])], 5)"
    by (rule prepare_commits_same_draws[OF single_run_first])
  moreover have "short_count_draws 5 \<noteq> count_draws 5"
    by (simp add: short_count_draws_def count_draws_def)
  ultimately show ?thesis by (rule conjI)
qed

section \<open>Records and counters of the aggregator\<close>

lemma lacks_author_Unknown:
  "lacks_author_metadata r \<Longrightarrow> author_of r = Inr (JStr ''Unknown'')"
proof (cases r)
  case (JObj kvs)
  assume l: "lacks_author_metadata r"
  show ?thesis
  proof (cases "map_of kvs ''commit''")
    case None
    with JObj show ?thesis by (simp add: author_of_def)
  next
    case (Some v)
    with l JObj obtain c where v: "v = JObj c" by (cases v) auto
    show ?thesis
    proof (cases "map_of c ''author''")
      case None
      with JObj Some v show ?thesis by (simp add: author_of_def)
    next
      case (Some x)
      with l JObj \<open>map_of kvs ''commit'' = Some v\<close> v obtain a where x: "x = JObj a"
        by (cases x) auto
      with l JObj \<open>map_of kvs ''commit'' = Some v\<close> v Some have "map_of a ''name'' = None"
        by simp
      with JObj \<open>map_of kvs ''commit'' = Some v\<close> v Some x show ?thesis
        by (simp add: author_of_def)
    qed
  qed
qed simp_all

lemma lacks_author_key:
  "lacks_author_metadata r \<Longrightarrow> author_key r = Inr (JStr ''Unknown'')"
  by (simp add: author_key_def lacks_author_Unknown)

lemma sum_values_increment: "sum_values (increment k m) = sum_values m + 1"
  by (induction m) (auto simp: sum_values_def)

lemma count_of_increment:
  "count_of (increment k m) k' = count_of m k' + (if k' = k then 1 else 0)"
  by (induction m) (auto simp: count_of_def)

lemma keys_increment:
  "map fst (increment k m) = (if k \<in> fst ` set m then map fst m else map fst m @ [k])"
proof (induction m)
  case Nil
  show ?case by simp
next
  case (Cons a m)
  obtain k' c where a: "a = (k', c)" by (cases a)
  show ?case
  proof (cases "k' = k")
    case True
    with a show ?thesis by simp
  next
    case False
    with a Cons.IH show ?thesis by (cases "k \<in> fst ` set m") auto
  qed
qed

lemma count_loop_step:
  "author_key r = Inr k \<Longrightarrow> count_loop (r # rs) m = count_loop rs (increment k m)"
  by (auto simp: author_key_def split: sum.splits)

lemma count_loop_fail:
  "author_key r = Inl e \<Longrightarrow> count_loop (r # rs) m = Inl e"
  by (auto simp: author_key_def split: sum.splits)

lemma count_loop_Inr_keys:
  "count_loop rs m = Inr m' \<Longrightarrow> \<forall>r \<in> set rs. \<exists>k. author_key r = Inr k"
proof (induction rs arbitrary: m)
  case Nil
  then show ?case by simp
next
  case (Cons r rs)
  show ?case
  proof (cases "author_key r")
    case (Inl e)
    with Cons.prems show ?thesis by (simp add: count_loop_fail del: count_loop.simps)
  next
    case (Inr k)
    with Cons.prems have "count_loop rs (increment k m) = Inr m'"
      by (simp add: count_loop_step del: count_loop.simps)
    from Cons.IH[OF this] Inr show ?thesis by auto
  qed
qed

lemma count_loop_ok:
  "\<forall>r \<in> set rs. \<exists>k. author_key r = Inr k \<Longrightarrow> \<exists>m'. count_loop rs m = Inr m'"
proof (induction rs arbitrary: m)
  case Nil
  then show ?case by simp
next
  case (Cons r rs)
  then obtain k where k: "author_key r = Inr k" by auto
  from Cons.IH[of "increment k m"] Cons.prems obtain m' where
    "count_loop rs (increment k m) = Inr m'" by auto
  with k show ?case by (simp add: count_loop_step del: count_loop.simps)
qed

lemma count_loop_sum:
  "count_loop rs m = Inr m' \<Longrightarrow> sum_values m' = sum_values m + length rs"
proof (induction rs arbitrary: m)
  case Nil
  then show ?case by simp
next
  case (Cons r rs)
  show ?case
  proof (cases "author_key r")
    case (Inl e)
    with Cons.prems show ?thesis by (simp add: count_loop_fail del: count_loop.simps)
  next
    case (Inr k)
    with Cons.prems have "count_loop rs (increment k m) = Inr m'"
      by (simp add: count_loop_step del: count_loop.simps)
    from Cons.IH[OF this] show ?thesis by (simp add: sum_values_increment)
  qed
qed

lemma count_loop_count:
  "count_loop rs m = Inr m' \<Longrightarrow>
   count_of m' k = count_of m k + length (filter (\<lambda>r. author_key r = Inr k) rs)"
proof (induction rs arbitrary: m)
  case Nil
  then show ?case by simp
next
  case (Cons r rs)
  show ?case
  proof (cases "author_key r")
    case (Inl e)
    with Cons.prems show ?thesis by (simp add: count_loop_fail del: count_loop.simps)
  next
    case (Inr k')
    with Cons.prems have "count_loop rs (increment k' m) = Inr m'"
      by (simp add: count_loop_step del: count_loop.simps)
    from Cons.IH[OF this] Inr show ?thesis by (auto simp: count_of_increment)
  qed
qed

section \<open>Claims about the aggregator\<close>

lemma sequence_map_Inr: "sequence (map Inr vs) = Inr vs"
  by (induction vs) auto

lemma sequence_map_ok:
  "\<forall>x \<in> set xs. \<exists>v. f x = Inr v \<Longrightarrow> sequence (map f xs) = Inr (map (\<lambda>x. projr (f x)) xs)"
  by (induction xs) auto

lemma filter_length_mono:
  "\<forall>x \<in> set xs. Q x \<longrightarrow> P x \<Longrightarrow> length (filter Q xs) \<le> length (filter P xs)"
  by (induction xs) auto

lemma fetch_commit_details_ok:
  "get_commit w u \<noteq> OtherError e' \<Longrightarrow> (\<forall>e. get_commit w u \<noteq> OtherError e) \<Longrightarrow>
   \<exists>r. fetch_commit_details w u = Inr r"
  by (cases "get_commit w u") (auto simp: fetch_commit_details_def)

lemma fetch_commit_details_Ok:
  "get_commit w u = Ok r \<Longrightarrow> fetch_commit_details w u = Inr r"
  by (simp add: fetch_commit_details_def)

lemma fetch_commit_details_ClientError:
  "get_commit w u = ClientError \<Longrightarrow> fetch_commit_details w u = Inr (JObj [])"
  by (simp add: fetch_commit_details_def)

lemma empty_record_lacks: "lacks_author_metadata (JObj [])"
  by simp

lemma urls_length:
  "map (\<lambda>commit. getitem commit ''url'') refs = map Inr urls \<Longrightarrow> length urls = length refs"
  by (metis length_map)

lemma ex_parse: "parse_repo_url ex_repo = Inr (''octo'', ''repo'')"
  by code_simp

lemma counted_unknown_key:
  "counted_unknown w u \<Longrightarrow>
   \<exists>r. fetch_commit_details w u = Inr r \<and> author_key r = Inr (JStr ''Unknown'')"
  by (cases "get_commit w u")
     (auto simp: counted_unknown_def fetch_commit_details_def lacks_author_key)

text \<open>
  \<^verbatim>\<open>GitHubScraper\<close> defines neither \<^verbatim>\<open>scrape_commits\<close> nor
  \<^verbatim>\<open>scrape_contributors\<close>, so it cannot be instantiated, and both methods of the analyzer
  end in the \<^verbatim>\<open>TypeError\<close> of the constructor, whatever the service would answer.
\<close>

lemma GitHubScraper_new_raises: "GitHubScraper_new = Inl TypeError"
  by (simp add: GitHubScraper_new_def instantiate_def ScraperInterface_abstract_def
      GitHubScraper_defined_def)

lemma analyze_contributions_raises:
  "analyze_contributions w repo_url since until = Inl TypeError"
  by (simp add: analyze_contributions_def GitHubScraper_new_raises)

lemma get_top_contributors_raises:
  "get_top_contributors w repo_url since until top_n = Inl TypeError"
  by (simp add: get_top_contributors_def analyze_contributions_raises)

text \<open>The records that \<^verbatim>\<open>fetch_contributions\<close> returns, when the listing and every detail
  request end without an exception other than a client error.\<close>

lemma fetch_contributions_eq:
  assumes parse: "parse_repo_url repo_url = Inr (owner, repo)"
    and listing: "list_commits w owner repo since until = Ok (JArr refs)"
    and urls: "map (\<lambda>commit. getitem commit ''url'') refs = map Inr urls"
    and fetch: "\<forall>u \<in> set urls. \<exists>r. fetch_commit_details w u = Inr r"
  shows "fetch_contributions w repo_url since until =
           Inr (map (\<lambda>u. projr (fetch_commit_details w u)) urls)"
proof -
  have s1: "sequence (map (\<lambda>commit. getitem commit ''url'') refs) = Inr urls"
    by (simp add: urls sequence_map_Inr)
  have s2: "sequence (map (fetch_commit_details w) urls) =
      Inr (map (\<lambda>u. projr (fetch_commit_details w u)) urls)"
    by (rule sequence_map_ok[OF fetch])
  have "process_commits w (JArr refs) = map (\<lambda>u. projr (fetch_commit_details w u)) urls"
    by (simp add: process_commits_def s1 s2)
  then show ?thesis
    by (simp add: fetch_contributions_def parse listing)
qed

text \<open>A client error of the listing request is answered by \<^verbatim>\<open>fetch_contributions\<close> with
  the empty list; any other exception of that request leaves it.\<close>

lemma fetch_contributions_listing_failure:
  assumes parse: "parse_repo_url repo_url = Inr (owner, repo)"
  shows "(list_commits w owner repo since until = ClientError \<longrightarrow>
            fetch_contributions w repo_url since until = Inr [])
       \<and> (\<forall>e. list_commits w owner repo since until = OtherError e \<longrightarrow>
            fetch_contributions w repo_url since until = Inl e)"
  by (simp add: fetch_contributions_def parse)

text \<open>The example services, evaluated.\<close>

lemma three_data:
  "fetch_contributions three_world ex_repo ex_since ex_until =
     Inr [commit_by ''x'', commit_by ''y'', commit_by ''x'']"
  by code_simp

lemma three_count:
  "count_loop [commit_by ''x'', commit_by ''y'', commit_by ''x''] [] =
     Inr [(JStr ''x'', 2), (JStr ''y'', 1)]"
  by code_simp

lemma five_data:
  "fetch_contributions five_world ex_repo ex_since ex_until =
     Inr [commit_by ''x'', commit_by ''x'', JObj [], commit_by ''y'', commit_by ''y'']"
  by code_simp

lemma five_count:
  "count_loop [commit_by ''x'', commit_by ''x'', JObj [], commit_by ''y'', commit_by ''y''] [] =
     Inr [(JStr ''x'', 2), (JStr ''Unknown'', 1), (JStr ''y'', 2)]"
  by code_simp

lemma anonymous_data:
  "fetch_contributions anonymous_world ex_repo ex_since ex_until =
     Inr [JObj [], JObj [(''commit'', JObj [(''message'', JStr ''fix'')])], JObj [],
          commit_by ''x'']"
  by code_simp

lemma anonymous_count:
  "count_loop [JObj [], JObj [(''commit'', JObj [(''message'', JStr ''fix'')])], JObj [],
               commit_by ''x''] [] =
     Inr [(JStr ''Unknown'', 3), (JStr ''x'', 1)]"
  by code_simp

lemma null_commit_data:
  "fetch_contributions null_commit_world ex_repo ex_since ex_until = Inr [null_commit]"
  by code_simp

lemma null_commit_count: "count_loop [null_commit] [] = Inl AttributeError"
  by code_simp

lemma null_name_count: "count_loop [null_name] [] = Inr [(JNull, 1)]"
  by code_simp

lemma no_url_data: "fetch_contributions no_url_world ex_repo ex_since ex_until = Inr []"
  by code_simp

lemma late_data: "fetch_contributions late_world ex_repo ex_since ex_until = Inr []"
  by code_simp

text \<open>
  C8, as stated, fails. The analysis of three commits by x, y and x returns no mapping: it
  ends in the exception of the constructor. Nor do successful detail requests alone make
  the counting conserve the candidate set: a fetched record with \<^verbatim>\<open>"commit": null\<close>
  ends the counting loop in an \<^verbatim>\<open>AttributeError\<close>, and a listed commit without
  \<^verbatim>\<open>"url"\<close> makes \<^verbatim>\<open>fetch_contributions\<close> return no record at all.
\<close>

theorem conservation_counterexample:
  "analyze_contributions three_world ex_repo ex_since ex_until = Inl TypeError
   \<and> get_commit null_commit_world (JStr ''u1'') = Ok null_commit
   \<and> fetch_contributions null_commit_world ex_repo ex_since ex_until = Inr [null_commit]
   \<and> count_loop [null_commit] [] = Inl AttributeError
   \<and> list_commits no_url_world ''octo'' ''repo'' ex_since ex_until =
       Ok (JArr [JObj [(''sha'', JStr ''u1'')]])
   \<and> fetch_contributions no_url_world ex_repo ex_since ex_until = Inr []"
  using analyze_contributions_raises[of three_world ex_repo ex_since ex_until]
    null_commit_data null_commit_count no_url_data
  by (simp add: null_commit_world_def no_url_world_def mk_world_def)

text \<open>
  C8, amended. When the repository URL parses, the listing answers with a list of commits
  that each carry a URL, and every detail request succeeds with a record whose author can be
  read, \<^verbatim>\<open>fetch_contributions\<close> returns one record for each listed commit, and the
  counting loop of \<^verbatim>\<open>analyze_contributions\<close> turns these records into a mapping in which
  every author has the number of the records read as theirs and the counts add up to the
  number of listed commits. The mapping is all there is: no separate total is kept.
\<close>

theorem counting_conserves:
  assumes parse: "parse_repo_url repo_url = Inr (owner, repo)"
    and listing: "list_commits w owner repo since until = Ok (JArr refs)"
    and urls: "map (\<lambda>commit. getitem commit ''url'') refs = map Inr urls"
    and fetch: "\<forall>u \<in> set urls. \<exists>r k. get_commit w u = Ok r \<and> author_key r = Inr k"
  shows "\<exists>commit_data by_author.
           fetch_contributions w repo_url since until = Inr commit_data
         \<and> length commit_data = length refs
         \<and> count_loop commit_data [] = Inr by_author
         \<and> sum_values by_author = length refs
         \<and> (\<forall>k. count_of by_author k =
                  length (filter (\<lambda>r. author_key r = Inr k) commit_data))"
proof -
  let ?recs = "map (\<lambda>u. projr (fetch_commit_details w u)) urls"
  from fetch have f: "\<forall>u \<in> set urls. \<exists>r. fetch_commit_details w u = Inr r"
    by (auto simp: fetch_commit_details_def)
  have eq: "fetch_contributions w repo_url since until = Inr ?recs"
    by (rule fetch_contributions_eq[OF parse listing urls f])
  have len: "length ?recs = length refs"
    using urls_length[OF urls] by simp
  have "\<forall>r \<in> set ?recs. \<exists>k. author_key r = Inr k"
    using fetch by (auto simp: fetch_commit_details_def)
  from count_loop_ok[OF this] obtain m where m: "count_loop ?recs [] = Inr m" by blast
  from count_loop_sum[OF m] len have t: "sum_values m = length refs"
    by (simp add: sum_values_def)
  have c: "\<forall>k. count_of m k = length (filter (\<lambda>r. author_key r = Inr k) ?recs)"
    using count_loop_count[OF m] by (simp add: count_of_def)
  from eq len m t c show ?thesis by blast
qed

text \<open>
  C8, the amended statement at three commits by x, y and x: the mapping is x: 2, y: 1 and
  the counts add up to 3.
\<close>

theorem counting_conserves_witness:
  "fetch_contributions three_world ex_repo ex_since ex_until =
     Inr [commit_by ''x'', commit_by ''y'', commit_by ''x'']
   \<and> count_loop [commit_by ''x'', commit_by ''y'', commit_by ''x''] [] =
       Inr [(JStr ''x'', 2), (JStr ''y'', 1)]
   \<and> sum_values [(JStr ''x'', 2), (JStr ''y'', 1)] = 3"
proof -
  have l: "list_commits three_world ''octo'' ''repo'' ex_since ex_until =
      Ok (JArr [commit_ref ''u1'', commit_ref ''u2'', commit_ref ''u3''])"
    by (simp add: three_world_def mk_world_def)
  have u: "map (\<lambda>commit. getitem commit ''url'')
        [commit_ref ''u1'', commit_ref ''u2'', commit_ref ''u3''] =
      map Inr [JStr ''u1'', JStr ''u2'', JStr ''u3'']"
    by (simp add: commit_ref_def)
  have f: "\<forall>u \<in> set [JStr ''u1'', JStr ''u2'', JStr ''u3''].
      \<exists>r k. get_commit three_world u = Ok r \<and> author_key r = Inr k"
    by (simp add: three_world_def mk_world_def commit_by_def author_key_def author_of_def)
  from counting_conserves[OF ex_parse l u f] three_data three_count show ?thesis
    by auto
qed

text \<open>
  C2, as stated, fails. A detail request that ends in a client error (404 not found) is
  answered with the empty record, which the counting loop counts under "Unknown": with five
  commits of which the third is not found, \<^verbatim>\<open>fetch_contributions\<close> returns five records
  and their counts add up to 5, not 4. No list of errors is kept anywhere, and the analysis
  itself returns no mapping: it ends in the exception of the constructor.
\<close>

theorem failed_fetch_counterexample:
  "get_commit five_world (JStr ''u3'') = ClientError
   \<and> fetch_contributions five_world ex_repo ex_since ex_until =
       Inr [commit_by ''x'', commit_by ''x'', JObj [], commit_by ''y'', commit_by ''y'']
   \<and> count_loop [commit_by ''x'', commit_by ''x'', JObj [], commit_by ''y'', commit_by ''y''] [] =
       Inr [(JStr ''x'', 2), (JStr ''Unknown'', 1), (JStr ''y'', 2)]
   \<and> sum_values [(JStr ''x'', 2), (JStr ''Unknown'', 1), (JStr ''y'', 2)] = 5
   \<and> analyze_contributions five_world ex_repo ex_since ex_until = Inl TypeError"
  using five_data five_count analyze_contributions_raises[of five_world ex_repo ex_since ex_until]
  by (simp add: sum_values_def five_world_def mk_world_def)

text \<open>
  C2, amended. When the repository URL parses, the listing answers with five commits that
  each carry a URL, exactly one detail request ends in a client error and every other one
  succeeds with a record whose author can be read, \<^verbatim>\<open>fetch_contributions\<close> returns five
  records, the empty record among them, and the counting loop of
  \<^verbatim>\<open>analyze_contributions\<close> turns them into a mapping whose counts add up to 5, with the
  failed commit counted under "Unknown".
\<close>

theorem failed_fetch_counted:
  assumes parse: "parse_repo_url repo_url = Inr (owner, repo)"
    and listing: "list_commits w owner repo since until = Ok (JArr refs)"
    and urls: "map (\<lambda>commit. getitem commit ''url'') refs = map Inr urls"
    and five: "length refs = 5"
    and fetch: "\<forall>u \<in> set urls. get_commit w u = ClientError
                  \<or> (\<exists>r k. get_commit w u = Ok r \<and> author_key r = Inr k)"
    and one: "length (filter (\<lambda>u. get_commit w u = ClientError) urls) = 1"
  shows "\<exists>commit_data by_author.
           fetch_contributions w repo_url since until = Inr commit_data
         \<and> length commit_data = 5
         \<and> JObj [] \<in> set commit_data
         \<and> count_loop commit_data [] = Inr by_author
         \<and> sum_values by_author = 5
         \<and> 1 \<le> count_of by_author (JStr ''Unknown'')"
proof -
  let ?recs = "map (\<lambda>u. projr (fetch_commit_details w u)) urls"
  from fetch have f: "\<forall>u \<in> set urls. \<exists>r. fetch_commit_details w u = Inr r"
    by (auto simp: fetch_commit_details_def)
  have eq: "fetch_contributions w repo_url since until = Inr ?recs"
    by (rule fetch_contributions_eq[OF parse listing urls f])
  have len: "length ?recs = 5"
    using urls_length[OF urls] five by simp
  from one have "filter (\<lambda>u. get_commit w u = ClientError) urls \<noteq> []" by auto
  then obtain u where u: "u \<in> set urls" "get_commit w u = ClientError"
    by (auto simp: filter_empty_conv)
  then have "projr (fetch_commit_details w u) = JObj []"
    by (simp add: fetch_commit_details_def)
  with u(1) have empty: "JObj [] \<in> set ?recs" by force
  have k: "\<forall>u \<in> set urls. (get_commit w u = ClientError \<longrightarrow>
              author_key (projr (fetch_commit_details w u)) = Inr (JStr ''Unknown''))
            \<and> (\<exists>k. author_key (projr (fetch_commit_details w u)) = Inr k)"
    using fetch by (auto simp: fetch_commit_details_def lacks_author_key)
  then have "\<forall>r \<in> set ?recs. \<exists>k. author_key r = Inr k" by auto
  from count_loop_ok[OF this] obtain m where m: "count_loop ?recs [] = Inr m" by blast
  from count_loop_sum[OF m] len have t: "sum_values m = 5" by (simp add: sum_values_def)
  have "count_of m (JStr ''Unknown'') =
      length (filter (\<lambda>r. author_key r = Inr (JStr ''Unknown'')) ?recs)"
    using count_loop_count[OF m, of "JStr ''Unknown''"] by (simp add: count_of_def)
  also have "\<dots> = length (filter (\<lambda>u. author_key (projr (fetch_commit_details w u))
                                         = Inr (JStr ''Unknown'')) urls)"
    by (simp add: filter_map o_def)
  also have "\<dots> \<ge> length (filter (\<lambda>u. get_commit w u = ClientError) urls)"
    by (rule filter_length_mono) (use k in auto)
  finally have "1 \<le> count_of m (JStr ''Unknown'')" using one by simp
  with eq len empty m t show ?thesis by blast
qed

text \<open>C2, the amended statement at the five commits of the counterexample.\<close>

theorem failed_fetch_counted_witness:
  "fetch_contributions five_world ex_repo ex_since ex_until =
     Inr [commit_by ''x'', commit_by ''x'', JObj [], commit_by ''y'', commit_by ''y'']
   \<and> count_loop [commit_by ''x'', commit_by ''x'', JObj [], commit_by ''y'', commit_by ''y''] [] =
       Inr [(JStr ''x'', 2), (JStr ''Unknown'', 1), (JStr ''y'', 2)]
   \<and> count_of [(JStr ''x'', 2), (JStr ''Unknown'', 1), (JStr ''y'', 2)] (JStr ''Unknown'') = 1"
proof -
  let ?refs = "[commit_ref ''u1'', commit_ref ''u2'', commit_ref ''u3'', commit_ref ''u4'',
                commit_ref ''u5'']"
  let ?urls = "[JStr ''u1'', JStr ''u2'', JStr ''u3'', JStr ''u4'', JStr ''u5'']"
  have l: "list_commits five_world ''octo'' ''repo'' ex_since ex_until = Ok (JArr ?refs)"
    by (simp add: five_world_def mk_world_def)
  have u: "map (\<lambda>commit. getitem commit ''url'') ?refs = map Inr ?urls"
    by (simp add: commit_ref_def)
  have n: "length ?refs = 5" by simp
  have f: "\<forall>u \<in> set ?urls. get_commit five_world u = ClientError
                  \<or> (\<exists>r k. get_commit five_world u = Ok r \<and> author_key r = Inr k)"
    by (simp add: five_world_def mk_world_def commit_by_def author_key_def author_of_def)
  have o: "length (filter (\<lambda>u. get_commit five_world u = ClientError) ?urls) = 1"
    by (simp add: five_world_def mk_world_def)
  from failed_fetch_counted[OF ex_parse l u n f o] five_data five_count show ?thesis
    by (auto simp: count_of_def)
qed

text \<open>
  C10, as stated, fails. The analysis of four commits of which three lack an author returns
  no mapping: it ends in the exception of the constructor. In the counting loop, a record
  whose \<^verbatim>\<open>"name"\<close> is null is counted under the null value, not under "Unknown", and a
  record whose \<^verbatim>\<open>"commit"\<close> is null ends the loop in an \<^verbatim>\<open>AttributeError\<close>. The empty
  record of a failed request is not counted either when another request of the same run
  ends in an exception that is no client error: \<^verbatim>\<open>fetch_contributions\<close> then returns no
  record at all.
\<close>

theorem unknown_author_counterexample:
  "analyze_contributions anonymous_world ex_repo ex_since ex_until = Inl TypeError
   \<and> count_loop [null_name] [] = Inr [(JNull, 1)]
   \<and> count_loop [null_commit] [] = Inl AttributeError
   \<and> get_commit late_world (JStr ''u1'') = ClientError
   \<and> get_commit late_world (JStr ''u2'') = OtherError TimeoutError
   \<and> fetch_contributions late_world ex_repo ex_since ex_until = Inr []"
  using analyze_contributions_raises[of anonymous_world ex_repo ex_since ex_until]
    null_name_count null_commit_count late_data
  by (simp add: late_world_def mk_world_def)

text \<open>
  C10, amended. When the repository URL parses, the listing answers with a list of commits
  that each carry a URL, and every detail request either ends in a client error, or answers
  with a record in which the key \<^verbatim>\<open>"commit"\<close>, or \<^verbatim>\<open>"author"\<close> below it, or
  \<^verbatim>\<open>"name"\<close> below that, is absent, or answers with a record whose author can be read,
  then \<^verbatim>\<open>fetch_contributions\<close> returns one record for each listed commit, and the counting
  loop of \<^verbatim>\<open>analyze_contributions\<close> counts every one of them: the counts add up to the
  number of listed commits, and the count of "Unknown" is the number of records read as
  "Unknown", which is at least the number of the requests that failed or answered without
  author.
\<close>

theorem missing_author_counted:
  assumes parse: "parse_repo_url repo_url = Inr (owner, repo)"
    and listing: "list_commits w owner repo since until = Ok (JArr refs)"
    and urls: "map (\<lambda>commit. getitem commit ''url'') refs = map Inr urls"
    and fetch: "\<forall>u \<in> set urls. counted_unknown w u
                  \<or> (\<exists>r k. get_commit w u = Ok r \<and> author_key r = Inr k)"
  shows "\<exists>commit_data by_author.
           fetch_contributions w repo_url since until = Inr commit_data
         \<and> length commit_data = length refs
         \<and> count_loop commit_data [] = Inr by_author
         \<and> sum_values by_author = length refs
         \<and> count_of by_author (JStr ''Unknown'') =
             length (filter (\<lambda>r. author_key r = Inr (JStr ''Unknown'')) commit_data)
         \<and> length (filter (counted_unknown w) urls) \<le> count_of by_author (JStr ''Unknown'')"
proof -
  let ?recs = "map (\<lambda>u. projr (fetch_commit_details w u)) urls"
  have k: "\<forall>u \<in> set urls. (\<exists>r. fetch_commit_details w u = Inr r)
            \<and> (counted_unknown w u \<longrightarrow>
                 author_key (projr (fetch_commit_details w u)) = Inr (JStr ''Unknown''))
            \<and> (\<exists>k. author_key (projr (fetch_commit_details w u)) = Inr k)"
  proof
    fix u assume u: "u \<in> set urls"
    show "(\<exists>r. fetch_commit_details w u = Inr r)
            \<and> (counted_unknown w u \<longrightarrow>
                 author_key (projr (fetch_commit_details w u)) = Inr (JStr ''Unknown''))
            \<and> (\<exists>k. author_key (projr (fetch_commit_details w u)) = Inr k)"
    proof (cases "counted_unknown w u")
      case True
      from counted_unknown_key[OF True] show ?thesis by auto
    next
      case False
      with fetch u obtain r k where "get_commit w u = Ok r" "author_key r = Inr k" by blast
      with False show ?thesis by (auto simp: fetch_commit_details_def)
    qed
  qed
  then have f: "\<forall>u \<in> set urls. \<exists>r. fetch_commit_details w u = Inr r" by blast
  have eq: "fetch_contributions w repo_url since until = Inr ?recs"
    by (rule fetch_contributions_eq[OF parse listing urls f])
  have len: "length ?recs = length refs"
    using urls_length[OF urls] by simp
  from k have "\<forall>r \<in> set ?recs. \<exists>k. author_key r = Inr k" by auto
  from count_loop_ok[OF this] obtain m where m: "count_loop ?recs [] = Inr m" by blast
  from count_loop_sum[OF m] len have t: "sum_values m = length refs"
    by (simp add: sum_values_def)
  have c: "count_of m (JStr ''Unknown'') =
      length (filter (\<lambda>r. author_key r = Inr (JStr ''Unknown'')) ?recs)"
    using count_loop_count[OF m, of "JStr ''Unknown''"] by (simp add: count_of_def)
  also have "\<dots> = length (filter (\<lambda>u. author_key (projr (fetch_commit_details w u))
                                         = Inr (JStr ''Unknown'')) urls)"
    by (simp add: filter_map o_def)
  also have "\<dots> \<ge> length (filter (counted_unknown w) urls)"
    by (rule filter_length_mono) (use k in auto)
  finally have "length (filter (counted_unknown w) urls) \<le> count_of m (JStr ''Unknown'')" .
  with eq len m t c show ?thesis by blast
qed

text \<open>
  C10, the amended statement at four commits: an empty record, a record without author, a
  failed request and one commit by x.
\<close>

theorem missing_author_counted_witness:
  "fetch_contributions anonymous_world ex_repo ex_since ex_until =
     Inr [JObj [], JObj [(''commit'', JObj [(''message'', JStr ''fix'')])], JObj [],
          commit_by ''x'']
   \<and> count_loop [JObj [], JObj [(''commit'', JObj [(''message'', JStr ''fix'')])], JObj [],
                 commit_by ''x''] [] =
       Inr [(JStr ''Unknown'', 3), (JStr ''x'', 1)]
   \<and> length (filter (counted_unknown anonymous_world)
        [JStr ''u1'', JStr ''u2'', JStr ''u3'', JStr ''u4'']) = 3
   \<and> count_of [(JStr ''Unknown'', 3), (JStr ''x'', 1)] (JStr ''Unknown'') = 3"
proof -
  let ?refs = "[commit_ref ''u1'', commit_ref ''u2'', commit_ref ''u3'', commit_ref ''u4'']"
  let ?urls = "[JStr ''u1'', JStr ''u2'', JStr ''u3'', JStr ''u4'']"
  have l: "list_commits anonymous_world ''octo'' ''repo'' ex_since ex_until = Ok (JArr ?refs)"
    by (simp add: anonymous_world_def mk_world_def)
  have u: "map (\<lambda>commit. getitem commit ''url'') ?refs = map Inr ?urls"
    by (simp add: commit_ref_def)
  have f: "\<forall>u \<in> set ?urls. counted_unknown anonymous_world u
              \<or> (\<exists>r k. get_commit anonymous_world u = Ok r \<and> author_key r = Inr k)"
    by (simp add: anonymous_world_def mk_world_def commit_by_def author_key_def author_of_def
        counted_unknown_def)
  have c: "length (filter (counted_unknown anonymous_world) ?urls) = 3"
    by (simp add: anonymous_world_def mk_world_def commit_by_def counted_unknown_def)
  from missing_author_counted[OF ex_parse l u f] anonymous_data anonymous_count c
  show ?thesis
    by (auto simp: count_of_def)
qed



section \<open>Top contributors\<close>

lemma tie_ba_data:
  "fetch_contributions tie_ba_world ex_repo ex_since ex_until =
     Inr [commit_by ''c'', commit_by ''b'', commit_by ''a'', commit_by ''b'', commit_by ''a'',
          commit_by ''b'', commit_by ''a'']"
  by code_simp

lemma keys_set_increment: "fst ` set (increment k m) = insert k (fst ` set m)"
proof -
  have "set (map fst (increment k m)) = insert k (set (map fst m))"
    unfolding keys_increment by auto
  then show ?thesis by simp
qed

lemma count_loop_keys:
  "count_loop rs m = Inr m' \<Longrightarrow>
   map fst m' = map fst m @
     filter (\<lambda>k. k \<notin> fst ` set m) (first_seen (map (\<lambda>r. projr (author_key r)) rs))"
proof (induction rs arbitrary: m)
  case Nil
  then show ?case by simp
next
  case (Cons r rs)
  let ?ks = "first_seen (map (\<lambda>r. projr (author_key r)) rs)"
  show ?case
  proof (cases "author_key r")
    case (Inl e)
    with Cons.prems show ?thesis by (simp add: count_loop_fail del: count_loop.simps)
  next
    case (Inr k)
    with Cons.prems have "count_loop rs (increment k m) = Inr m'"
      by (simp add: count_loop_step del: count_loop.simps)
    from Cons.IH[OF this] have ih: "map fst m' = map fst (increment k m) @
        filter (\<lambda>x. x \<notin> fst ` set (increment k m)) ?ks" .
    have keys: "fst ` set (increment k m) = insert k (fst ` set m)"
      by (rule keys_set_increment)
    show ?thesis
    proof (cases "k \<in> fst ` set m")
      case True
      then have "filter (\<lambda>x. x \<notin> fst ` set m) (removeAll k ?ks)
          = filter (\<lambda>x. x \<notin> fst ` set m) ?ks"
        by (auto simp: removeAll_filter_not_eq intro: filter_cong)
      with ih keys True Inr show ?thesis by (simp add: keys_increment insert_absorb)
    next
      case False
      have "filter (\<lambda>x. x \<notin> insert k (fst ` set m)) ?ks
          = filter (\<lambda>x. x \<notin> fst ` set m) (removeAll k ?ks)"
        by (auto simp: removeAll_filter_not_eq intro: filter_cong)
      with ih keys False Inr show ?thesis by (simp add: keys_increment)
    qed
  qed
qed

lemma filter_take_prefix:
  "filter P (take n xs) = take (length (filter P (take n xs))) (filter P xs)"
proof -
  have "filter P xs = filter P (take n xs) @ filter P (drop n xs)"
    by (metis append_take_drop_id filter_append)
  then show ?thesis by simp
qed

lemma sorted_reverse_descending:
  "sorted_wrt (\<lambda>x y. snd y \<le> snd x) (sorted_reverse m)"
proof -
  have "sorted (map (\<lambda>x. - int (snd x)) (sorted_reverse m))"
    by (simp add: sorted_reverse_def)
  then have "sorted_wrt (\<lambda>x y. - int (snd x) \<le> - int (snd y)) (sorted_reverse m)"
    by (simp add: sorted_map)
  then show ?thesis by (rule sorted_wrt_mono_rel[rotated]) simp
qed

lemma sorted_reverse_stable:
  "filter (\<lambda>x. snd x = c) (sorted_reverse m) = filter (\<lambda>x. snd x = c) m"
proof -
  have "filter (\<lambda>x. - int (snd x) = - int c) (sort_key (\<lambda>x. - int (snd x)) m)
      = filter (\<lambda>x. - int (snd x) = - int c) m"
    by (rule sort_key_stable)
  then show ?thesis by (simp add: sorted_reverse_def)
qed

lemma mset_sorted_reverse: "mset (sorted_reverse m) = mset m"
  by (simp add: sorted_reverse_def)

lemma tie_ab_data:
  "fetch_contributions tie_ab_world ex_repo ex_since ex_until =
     Inr [commit_by ''a'', commit_by ''b'', commit_by ''a'', commit_by ''b'', commit_by ''a'',
          commit_by ''b'', commit_by ''c'']"
  by code_simp

lemma tie_ab_count:
  "count_loop [commit_by ''a'', commit_by ''b'', commit_by ''a'', commit_by ''b'',
               commit_by ''a'', commit_by ''b'', commit_by ''c''] [] =
     Inr [(JStr ''a'', 3), (JStr ''b'', 3), (JStr ''c'', 1)]"
  by code_simp

lemma tie_ab_top:
  "top_contributors [(JStr ''a'', 3), (JStr ''b'', 3), (JStr ''c'', 1)] 2 =
     [\<lparr>name = JStr ''a'', contributions = 3\<rparr>, \<lparr>name = JStr ''b'', contributions = 3\<rparr>]"
  by code_simp

lemma tie_ba_count:
  "count_loop [commit_by ''c'', commit_by ''b'', commit_by ''a'', commit_by ''b'',
               commit_by ''a'', commit_by ''b'', commit_by ''a''] [] =
     Inr [(JStr ''c'', 1), (JStr ''b'', 3), (JStr ''a'', 3)]"
  by code_simp

lemma tie_ba_top:
  "top_contributors [(JStr ''c'', 1), (JStr ''b'', 3), (JStr ''a'', 3)] 2 =
     [\<lparr>name = JStr ''b'', contributions = 3\<rparr>, \<lparr>name = JStr ''a'', contributions = 3\<rparr>]"
  by code_simp

text \<open>
  C7, as stated, fails. \<^verbatim>\<open>get_top_contributors\<close> is given no completed counts: it is
  given the window and runs the analysis itself, requests included, and it ends in the
  exception in which that analysis ends. For the seven commits that the counting loop
  counts as a: 3, b: 3, c: 1, the call with \<open>top_n = 2\<close> returns no list.
\<close>

theorem get_top_contributors_counterexample:
  "fetch_contributions tie_ab_world ex_repo ex_since ex_until =
     Inr [commit_by ''a'', commit_by ''b'', commit_by ''a'', commit_by ''b'', commit_by ''a'',
          commit_by ''b'', commit_by ''c'']
   \<and> count_loop [commit_by ''a'', commit_by ''b'', commit_by ''a'', commit_by ''b'',
                 commit_by ''a'', commit_by ''b'', commit_by ''c''] [] =
       Inr [(JStr ''a'', 3), (JStr ''b'', 3), (JStr ''c'', 1)]
   \<and> get_top_contributors tie_ab_world ex_repo ex_since ex_until 2 =
       (case analyze_contributions tie_ab_world ex_repo ex_since ex_until of
          Inl e \<Rightarrow> Inl e
        | Inr contribs \<Rightarrow> Inr (top_contributors contribs 2))
   \<and> get_top_contributors tie_ab_world ex_repo ex_since ex_until 2 = Inl TypeError"
  using tie_ab_data tie_ab_count
    get_top_contributors_raises[of tie_ab_world ex_repo ex_since ex_until 2]
  by (simp add: get_top_contributors_def)

text \<open>
  C7, amended. \<^verbatim>\<open>get_top_contributors\<close> runs \<^verbatim>\<open>analyze_contributions\<close> itself, fails
  with its exception when that call fails, and otherwise sorts and cuts the counts that it
  returns. Of this sorting and cutting the following holds, for counts that the counting
  loop has produced and a non-negative \<open>top_n\<close>. The counts list the authors in the order
  in which they were first seen in the records. The result has \<open>top_n\<close> entries (all of
  them when there are fewer authors), taken from the counts; its counts are descending; no
  entry left out has a higher count than an entry returned; and the entries of one count
  come in the order they have in the counts, that is, first seen first.
\<close>

theorem top_contributors_stable:
  assumes cnt: "count_loop commit_data [] = Inr by_author"
    and n: "0 \<le> top_n"
  shows "get_top_contributors w repo_url since until top_n =
           (case analyze_contributions w repo_url since until of
              Inl e \<Rightarrow> Inl e
            | Inr contribs \<Rightarrow> Inr (top_contributors contribs top_n))
       \<and> (\<exists>rest.
           map fst by_author = first_seen (map (\<lambda>r. projr (author_key r)) commit_data)
         \<and> length (top_contributors by_author top_n) = min (nat top_n) (length by_author)
         \<and> mset (map (\<lambda>e. (name e, contributions e)) (top_contributors by_author top_n))
             + mset rest = mset by_author
         \<and> sorted_wrt (\<lambda>x y. contributions y \<le> contributions x)
             (top_contributors by_author top_n)
         \<and> (\<forall>e \<in> set (top_contributors by_author top_n). \<forall>x \<in> set rest.
              snd x \<le> contributions e)
         \<and> (\<forall>c. \<exists>k. map (\<lambda>e. (name e, contributions e))
                         (filter (\<lambda>e. contributions e = c) (top_contributors by_author top_n))
                       = take k (filter (\<lambda>x. snd x = c) by_author)))"
proof -
  let ?S = "sorted_reverse by_author"
  let ?mk = "\<lambda>(n, count). \<lparr>name = n, contributions = count\<rparr>"
  let ?pair = "\<lambda>e. (name e, contributions e)"
  let ?top = "map ?mk (take (nat top_n) ?S)"
  let ?rest = "drop (nat top_n) ?S"
  have pm: "map ?pair (map ?mk xs) = xs" for xs :: contributions
    by (induction xs) auto
  have c0: "get_top_contributors w repo_url since until top_n =
           (case analyze_contributions w repo_url since until of
              Inl e \<Rightarrow> Inl e
            | Inr contribs \<Rightarrow> Inr (top_contributors contribs top_n))"
    by (simp add: get_top_contributors_def)
  have c1: "top_contributors by_author top_n = ?top"
    using n by (simp add: top_contributors_def slice_to_def)
  from count_loop_keys[OF cnt]
  have c2: "map fst by_author = first_seen (map (\<lambda>r. projr (author_key r)) commit_data)"
    by simp
  have c3: "length ?top = min (nat top_n) (length by_author)"
    by (simp add: sorted_reverse_def)
  have "mset (take (nat top_n) ?S) + mset ?rest = mset ?S"
    by (metis append_take_drop_id mset_append)
  then have c4: "mset (map ?pair ?top) + mset ?rest = mset by_author"
    by (simp only: pm mset_sorted_reverse)
  have srt: "sorted_wrt (\<lambda>x y. snd y \<le> snd x) (take (nat top_n) ?S @ ?rest)"
    using sorted_reverse_descending[of by_author] by simp
  then have "sorted_wrt (\<lambda>x y. snd y \<le> snd x) (take (nat top_n) ?S)"
    and cross: "\<forall>x \<in> set (take (nat top_n) ?S). \<forall>y \<in> set ?rest. snd y \<le> snd x"
    unfolding sorted_wrt_append by auto
  then have c5: "sorted_wrt (\<lambda>x y. contributions y \<le> contributions x) ?top"
    by (simp add: sorted_wrt_map case_prod_beta)
  have c6: "\<forall>e \<in> set ?top. \<forall>x \<in> set ?rest. snd x \<le> contributions e"
    using cross by fastforce
  have c7: "\<forall>c. \<exists>k. map ?pair (filter (\<lambda>e. contributions e = c) ?top)
                       = take k (filter (\<lambda>x. snd x = c) by_author)"
  proof
    fix c
    have "filter (\<lambda>e. contributions e = c) ?top
        = map ?mk (filter (\<lambda>x. snd x = c) (take (nat top_n) ?S))"
      by (simp add: filter_map o_def case_prod_beta)
    then have "map ?pair (filter (\<lambda>e. contributions e = c) ?top)
        = filter (\<lambda>x. snd x = c) (take (nat top_n) ?S)"
      by (simp only: pm)
    also have "\<dots> = take (length (filter (\<lambda>x. snd x = c) (take (nat top_n) ?S)))
                      (filter (\<lambda>x. snd x = c) ?S)"
      by (rule filter_take_prefix)
    also have "filter (\<lambda>x. snd x = c) ?S = filter (\<lambda>x. snd x = c) by_author"
      by (rule sorted_reverse_stable)
    finally show "\<exists>k. map ?pair (filter (\<lambda>e. contributions e = c) ?top)
                       = take k (filter (\<lambda>x. snd x = c) by_author)"
      by blast
  qed
  from c2 c3 c4 c5 c6 c7 have
    "\<exists>rest.
           map fst by_author = first_seen (map (\<lambda>r. projr (author_key r)) commit_data)
         \<and> length ?top = min (nat top_n) (length by_author)
         \<and> mset (map ?pair ?top) + mset rest = mset by_author
         \<and> sorted_wrt (\<lambda>x y. contributions y \<le> contributions x) ?top
         \<and> (\<forall>e \<in> set ?top. \<forall>x \<in> set rest. snd x \<le> contributions e)
         \<and> (\<forall>c. \<exists>k. map ?pair (filter (\<lambda>e. contributions e = c) ?top)
                       = take k (filter (\<lambda>x. snd x = c) by_author))"
    by blast
  with c0 show ?thesis unfolding c1 by blast
qed

text \<open>
  C7, the amended statement at the counts a: 3, b: 3, c: 1 and \<open>top_n = 2\<close>: a before b
  when a was seen first, b before a when b was seen first.
\<close>

theorem top_contributors_stable_witness:
  "count_loop [commit_by ''a'', commit_by ''b'', commit_by ''a'', commit_by ''b'',
               commit_by ''a'', commit_by ''b'', commit_by ''c''] [] =
     Inr [(JStr ''a'', 3), (JStr ''b'', 3), (JStr ''c'', 1)]
   \<and> top_contributors [(JStr ''a'', 3), (JStr ''b'', 3), (JStr ''c'', 1)] 2 =
       [\<lparr>name = JStr ''a'', contributions = 3\<rparr>, \<lparr>name = JStr ''b'', contributions = 3\<rparr>]
   \<and> count_loop [commit_by ''c'', commit_by ''b'', commit_by ''a'', commit_by ''b'',
                 commit_by ''a'', commit_by ''b'', commit_by ''a''] [] =
       Inr [(JStr ''c'', 1), (JStr ''b'', 3), (JStr ''a'', 3)]
   \<and> top_contributors [(JStr ''c'', 1), (JStr ''b'', 3), (JStr ''a'', 3)] 2 =
       [\<lparr>name = JStr ''b'', contributions = 3\<rparr>, \<lparr>name = JStr ''a'', contributions = 3\<rparr>]
   \<and> map fst [(JStr ''c'', 1::nat), (JStr ''b'', 3), (JStr ''a'', 3)] =
       first_seen (map (\<lambda>r. projr (author_key r))
         [commit_by ''c'', commit_by ''b'', commit_by ''a'', commit_by ''b'', commit_by ''a'',
          commit_by ''b'', commit_by ''a''])"
proof -
  have "(0::int) \<le> 2" by simp
  from top_contributors_stable[OF tie_ba_count this] tie_ab_count tie_ab_top tie_ba_count
    tie_ba_top
  show ?thesis by auto
qed

section \<open>Validation of a date range\<close>

text \<open>
  C9 does not hold for the code. The two ends are clamped independently and the order is not
  checked again: with a lookback of 365 days on 2024-06-01 12:00, the valid range 2022-01-01
  to 2022-02-01 is returned as 2023-06-02 12:00 to 2022-02-01, whose start is after its end.
\<close>

theorem validate_date_range_inverted:
  "validate_date_range ex_date_config ex_now (mk_datetime 2022 1 1 0 0) (mk_datetime 2022 2 1 0 0)
     = Inr (mk_datetime 2023 6 2 12 0, mk_datetime 2022 2 1 0 0)
   \<and> dt_le (mk_datetime 2022 1 1 0 0) (mk_datetime 2022 2 1 0 0)
   \<and> dt_less (mk_datetime 2022 2 1 0 0) (mk_datetime 2023 6 2 12 0)"
  by code_simp

end
